theory Spec2Isabelle
  imports Complex_Main "HOL-Library.AList" "HOL-Library.Multiset" "HOL-Library.Product_Lexorder"
    "HOL-Library.Sublist"
begin

section \<open>Data model\<close>

text \<open>
  The program \<^verbatim>\<open>pull_daily_ohlc.py\<close> keeps, per asset, a table of daily bars (a pandas
  DataFrame written to a CSV file). The embedding keeps the table as the list of its rows,
  in positional order.

  \<^item> A float64 cell is \<open>float64 = rat option\<close>: \<open>None\<close> is NaN (an empty CSV field),
    \<open>Some q\<close> the number \<open>q\<close>. Numbers are exact rationals: rounding, infinities and
    overflow of IEEE arithmetic are outside the model.
  \<^item> A timestamp cell is \<open>int option\<close>: the instant in nanoseconds since the epoch (a
    pandas \<^verbatim>\<open>datetime64[ns]\<close>), \<open>None\<close> is NaT.
  \<^item> The seven named columns are record fields. Every further column of a row (the
    \<^verbatim>\<open>donchian_*\<close> columns among them) is an entry of \<open>extra\<close>, keyed by the column's
    name, in column order.
\<close>

type_synonym float64 = "rat option"

record row =
  timestamp :: "int option"
  open_price :: float64
  high :: float64
  low :: float64
  close_price :: float64
  volume :: float64
  asset :: string
  extra :: "(string \<times> float64) list"

type_synonym dataframe = "row list"

text \<open>\<^verbatim>\<open>self.donchian_periods = [5, 10, 20, 30, 60, 90, 150, 250, 360]\<close>\<close>

definition donchian_periods :: "nat list" where
  "donchian_periods = [5, 10, 20, 30, 60, 90, 150, 250, 360]"

section \<open>Column names\<close>

text \<open>The decimal numeral of a period, as the f-string \<^verbatim>\<open>f'donchian_high_{period}'\<close> prints it.\<close>

function str :: "nat \<Rightarrow> string" where
  "str n = (if n < 10 then [''0123456789'' ! n]
            else str (n div 10) @ [''0123456789'' ! (n mod 10)])"
  by pat_completeness auto
termination
  by (relation "measure id") auto

declare str.simps [simp del]

definition high_col :: "nat \<Rightarrow> string" where
  "high_col period = ''donchian_high_'' @ str period"

definition low_col :: "nat \<Rightarrow> string" where
  "low_col period = ''donchian_low_'' @ str period"

definition mid_col :: "nat \<Rightarrow> string" where
  "mid_col period = ''donchian_mid_'' @ str period"

section \<open>Columns of a table\<close>

text \<open>
  \<^verbatim>\<open>df[name] = series\<close>: every row gets its value of the column; a column that exists
  keeps its place, a new one goes last (\<open>AList.update\<close>). The series of this program have
  the index of \<open>df\<close>, so the value at position \<open>i\<close> goes to the row at position \<open>i\<close>.
\<close>

definition set_column :: "string \<Rightarrow> float64 list \<Rightarrow> dataframe \<Rightarrow> dataframe" where
  "set_column name vals df =
     map (\<lambda>(r, v). r\<lparr>extra := AList.update name v (extra r)\<rparr>) (zip df vals)"

text \<open>\<^verbatim>\<open>df[name]\<close> for a further column: a row that lacks the column reads NaN.\<close>

definition cell :: "row \<Rightarrow> string \<Rightarrow> float64" where
  "cell r name = (case map_of (extra r) name of None \<Rightarrow> None | Some v \<Rightarrow> v)"

definition column :: "string \<Rightarrow> dataframe \<Rightarrow> float64 list" where
  "column name df = map (\<lambda>r. cell r name) df"

section \<open>Indicator engine: \<^verbatim>\<open>calculate_donchian_channels\<close>\<close>

text \<open>
  \<^verbatim>\<open>series.rolling(window=w, min_periods=m).max()\<close>: the window at position \<open>i\<close> holds
  the last \<open>w\<close> positions up to \<open>i\<close> (fewer at the start of the series); its observations
  are the cells that are not NaN; the result is NaN with fewer than \<open>m\<close> observations and
  the aggregate of the observations otherwise.
\<close>

definition window_at :: "nat \<Rightarrow> 'a list \<Rightarrow> nat \<Rightarrow> 'a list" where
  "window_at w xs i = drop (Suc i - w) (take (Suc i) xs)"

fun observations :: "float64 list \<Rightarrow> rat list" where
  "observations [] = []"
| "observations (None # xs) = observations xs"
| "observations (Some v # xs) = v # observations xs"

fun list_max :: "rat list \<Rightarrow> rat" where
  "list_max [] = 0"
| "list_max (x # xs) = fold max xs x"

fun list_min :: "rat list \<Rightarrow> rat" where
  "list_min [] = 0"
| "list_min (x # xs) = fold min xs x"

definition rolling :: "(rat list \<Rightarrow> rat) \<Rightarrow> nat \<Rightarrow> nat \<Rightarrow> float64 list \<Rightarrow> float64 list" where
  "rolling agg w m xs =
     map (\<lambda>i. let obs = observations (window_at w xs i)
               in if obs = [] \<or> length obs < m then None else Some (agg obs))
         [0..<length xs]"

text \<open>\<^verbatim>\<open>(a + b) / 2\<close> on float64 cells: NaN when an operand is NaN.\<close>

fun mean2 :: "float64 \<Rightarrow> float64 \<Rightarrow> float64" where
  "mean2 (Some a) (Some b) = Some ((a + b) / 2)"
| "mean2 _ _ = None"

text \<open>The body of the loop \<^verbatim>\<open>for period in self.donchian_periods\<close>.\<close>

definition add_period :: "nat \<Rightarrow> dataframe \<Rightarrow> dataframe" where
  "add_period period df =
     (let df1 = set_column (high_col period) (rolling list_max period period (map high df)) df;
          df2 = set_column (low_col period) (rolling list_min period period (map low df1)) df1
      in set_column (mid_col period)
           (map (\<lambda>(h, l). mean2 h l)
              (zip (column (high_col period) df2) (column (low_col period) df2))) df2)"

definition calculate_donchian_channels :: "dataframe \<Rightarrow> dataframe" where
  "calculate_donchian_channels df =
     (if df = [] then df else fold add_period donchian_periods df)"


section \<open>Series normalizer: \<^verbatim>\<open>process_ohlc_data\<close>\<close>

text \<open>
  A record of the remote payload is a JSON object, a Python \<^verbatim>\<open>dict\<close>. Its values are taken
  in three classes, by what the pandas conversions make of them:
  \<^item> \<open>JNum q\<close>: a number, or a string that holds a numeral, of value \<open>q\<close>;
  \<^item> \<open>JStr s\<close>: any other string \<open>s\<close>, the empty string and the spellings of NaT and NaN
    among them;
  \<^item> \<open>JNull\<close>: \<^verbatim>\<open>null\<close>.
  Keys other than the six required ones are carried along by pandas and are not modelled.
\<close>

datatype jval = JNum rat | JStr string | JNull

type_synonym raw_bar = "string \<rightharpoonup> jval"

datatype error = ValueError | OutOfBoundsDatetime

definition required_columns :: "string list" where
  "required_columns = [''T'', ''o'', ''h'', ''l'', ''c'', ''v'']"

text \<open>
  \<^verbatim>\<open>pd.DataFrame(raw_data)\<close>: the columns are the keys that occur in some record; a record
  without the key has NaN in that column.
\<close>

definition has_column :: "raw_bar list \<Rightarrow> string \<Rightarrow> bool" where
  "has_column raw_data col = list_ex (\<lambda>r. r col \<noteq> None) raw_data"

definition get_field :: "raw_bar \<Rightarrow> string \<Rightarrow> jval" where
  "get_field r col = (case r col of None \<Rightarrow> JNull | Some v \<Rightarrow> v)"

text \<open>
  \<^verbatim>\<open>pd.to_datetime(column, unit='ms')\<close>, cell by cell. A number of milliseconds is an
  instant at nanosecond resolution (the million-fold of the number; what it holds below a
  nanosecond is dropped), and raises \<^verbatim>\<open>OutOfBoundsDatetime\<close> when the nanoseconds do not
  fit the 64-bit range of \<^verbatim>\<open>datetime64[ns]\<close>. A missing value, the empty string and the
  strings pandas reads as NaT are NaT. Any other string raises \<^verbatim>\<open>ValueError\<close>. One cell
  that raises fails the whole column.
\<close>

definition nat_strings :: "string list" where
  "nat_strings = [''NaT'', ''nat'', ''NAT'', ''nan'', ''NaN'', ''NAN'']"

fun to_datetime :: "jval \<Rightarrow> error + int option" where
  "to_datetime (JNum q) =
     (if - 9223372036854775807 \<le> \<lfloor>q * 1000000\<rfloor> \<and> \<lfloor>q * 1000000\<rfloor> \<le> 9223372036854775807
      then Inr (Some \<lfloor>q * 1000000\<rfloor>)
      else Inl OutOfBoundsDatetime)"
| "to_datetime JNull = Inr None"
| "to_datetime (JStr s) =
     (if s = [] \<or> s \<in> set nat_strings then Inr None else Inl ValueError)"

fun to_datetime_column :: "jval list \<Rightarrow> error + int option list" where
  "to_datetime_column [] = Inr []"
| "to_datetime_column (v # vs) =
     (case to_datetime v of
        Inl e \<Rightarrow> Inl e
      | Inr t \<Rightarrow> (case to_datetime_column vs of Inl e \<Rightarrow> Inl e | Inr ts \<Rightarrow> Inr (t # ts)))"

text \<open>\<^verbatim>\<open>pd.to_numeric(column, errors='coerce')\<close>: what does not parse becomes NaN.\<close>

fun to_numeric :: "jval \<Rightarrow> float64" where
  "to_numeric (JNum q) = Some q"
| "to_numeric (JStr s) = None"
| "to_numeric JNull = None"

text \<open>
  \<^verbatim>\<open>df.sort_values('timestamp')\<close>: ascending, NaT last. pandas does not promise an order
  among rows of equal timestamp; the model keeps them in their order (a stable sort).
\<close>

definition ts_key :: "int option \<Rightarrow> bool \<times> int" where
  "ts_key t = (case t of None \<Rightarrow> (True, 0) | Some x \<Rightarrow> (False, x))"

definition sort_values :: "dataframe \<Rightarrow> dataframe" where
  "sort_values df = sort_key (\<lambda>r. ts_key (timestamp r)) df"

text \<open>
  One row of the table: the columns renamed, the instant converted, the five numeric
  columns coerced, and the asset column added.
\<close>

definition to_row :: "string \<Rightarrow> raw_bar \<Rightarrow> int option \<Rightarrow> row" where
  "to_row a r t =
     \<lparr>timestamp = t,
      open_price = to_numeric (get_field r ''o''),
      high = to_numeric (get_field r ''h''),
      low = to_numeric (get_field r ''l''),
      close_price = to_numeric (get_field r ''c''),
      volume = to_numeric (get_field r ''v''),
      asset = a,
      extra = []\<rparr>"

text \<open>
  An exception in the \<^verbatim>\<open>try\<close> block (the conversion of the instants is the one that can
  raise here) is caught and the empty table is returned, as for a missing column.
\<close>

definition process_ohlc_data :: "raw_bar list \<Rightarrow> string \<Rightarrow> dataframe" where
  "process_ohlc_data raw_data a =
     (if raw_data = [] then []
      else if \<not> list_all (has_column raw_data) required_columns then []
      else case to_datetime_column (map (\<lambda>r. get_field r ''T'') raw_data) of
             Inl e \<Rightarrow> []
           | Inr ts \<Rightarrow>
               calculate_donchian_channels
                 (sort_values (map (\<lambda>(r, t). to_row a r t) (zip raw_data ts))))"

section \<open>Archive merger: \<^verbatim>\<open>save_asset_data\<close>\<close>

text \<open>
  The file \<^verbatim>\<open>{asset}_daily.csv\<close> of an asset is absent, or holds a table, or holds
  something \<^verbatim>\<open>pd.read_csv\<close> raises on. What \<^verbatim>\<open>to_csv\<close> writes, \<^verbatim>\<open>read_csv\<close> reads back:
  the model stores the table itself.
\<close>

datatype archive = Unreadable | Table dataframe

type_synonym store = "string \<Rightarrow> archive option"

record config =
  full_historical :: bool
  days_back :: int

text \<open>\<^verbatim>\<open>drop_duplicates(subset=['timestamp'], keep='last')\<close>\<close>

fun drop_duplicates :: "dataframe \<Rightarrow> dataframe" where
  "drop_duplicates [] = []"
| "drop_duplicates (r # rs) =
     (if timestamp r \<in> set (map timestamp rs) then drop_duplicates rs
      else r # drop_duplicates rs)"

text \<open>\<^verbatim>\<open>df.drop(columns=[col for col in df.columns if col.startswith('donchian_')])\<close>\<close>

definition strip_row :: "row \<Rightarrow> row" where
  "strip_row r = r\<lparr>extra := filter (\<lambda>(col, v). \<not> prefix ''donchian_'' col) (extra r)\<rparr>"

definition recalculate_donchian_for_existing :: "dataframe \<Rightarrow> dataframe" where
  "recalculate_donchian_for_existing df = calculate_donchian_channels (map strip_row df)"

text \<open>
  An exception in the \<^verbatim>\<open>try\<close> block (the archive cannot be read) is caught and nothing is
  written.
\<close>

definition save_asset_data :: "config \<Rightarrow> store \<Rightarrow> dataframe \<Rightarrow> string \<Rightarrow> store" where
  "save_asset_data cfg fs df a =
     (if df = [] then fs
      else if fs a \<noteq> None \<and> \<not> full_historical cfg then
        (case fs a of
           Some (Table existing_df) \<Rightarrow>
             fs(a \<mapsto> Table (recalculate_donchian_for_existing
                              (sort_values (drop_duplicates (existing_df @ df)))))
         | _ \<Rightarrow> fs)
      else fs(a \<mapsto> Table df))"

section \<open>Range planner: \<^verbatim>\<open>calculate_time_range\<close>\<close>

text \<open>
  \<open>now\<close> is the one reading of the UTC clock the call makes, in milliseconds since the
  epoch, the unit of the bounds the function returns; a date is a day number since the
  epoch, of the clock (\<open>date_of\<close>) or of a stored instant, which is in nanoseconds
  (\<open>timestamp_date\<close>). The result \<open>None\<close> is the pair
  \<^verbatim>\<open>(None, None)\<close>, the signal that no update is needed. A last timestamp that is NaT
  makes the comparison of dates raise: the handler falls back to \<^verbatim>\<open>days_back\<close>.
\<close>

definition day_ms :: int where
  "day_ms = 86400000"

definition date_of :: "int \<Rightarrow> int" where
  "date_of t = t div day_ms"

definition timestamp_date :: "int \<Rightarrow> int" where
  "timestamp_date t = t div (1000000 * day_ms)"

definition calculate_time_range :: "config \<Rightarrow> int \<Rightarrow> store \<Rightarrow> string \<Rightarrow> (int \<times> int) option" where
  "calculate_time_range cfg now fs a =
     (let current_date = date_of now in
      if full_historical cfg \<or> fs a = None then Some (now - 730 * day_ms, now)
      else case fs a of
             Some (Table existing_df) \<Rightarrow>
               (if existing_df \<noteq> [] then
                  (case timestamp (last existing_df) of
                     Some last_timestamp \<Rightarrow>
                       (let last_date = timestamp_date last_timestamp in
                        if last_date \<ge> current_date then None
                        else Some ((last_date + 1) * day_ms, now))
                   | None \<Rightarrow> Some (now - days_back cfg * day_ms, now))
                else Some (now - days_back cfg * day_ms, now))
           | _ \<Rightarrow> Some (now - days_back cfg * day_ms, now))"

section \<open>Fetcher: \<^verbatim>\<open>get_historical_ohlc\<close>\<close>

text \<open>
  The remote source is a function from the number of the attempt to what the request of
  that attempt meets: a decoded body, an HTTP error status (\<^verbatim>\<open>raise_for_status\<close>), or any
  other exception (network failure, timeout, a body that is not JSON). The function
  returns the bars together with what it did: its requests and its sleeps, in order.
\<close>

datatype body = JsonList "raw_bar list" | JsonOther

datatype response = Success body | HTTPError nat | OtherError

datatype event = Request string int int | Sleep rat

definition max_retries :: nat where
  "max_retries = 3"

function get_historical_ohlc_loop ::
  "(nat \<Rightarrow> response) \<Rightarrow> string \<Rightarrow> int \<Rightarrow> int \<Rightarrow> nat \<Rightarrow> rat \<Rightarrow> raw_bar list \<times> event list" where
  "get_historical_ohlc_loop remote a start_time end_time attempt retry_delay =
     (if attempt \<ge> max_retries then ([], [])
      else case remote attempt of
             Success (JsonList d) \<Rightarrow>
               (if length d > 0 then (d, [Request a start_time end_time])
                else ([], [Request a start_time end_time]))
           | Success JsonOther \<Rightarrow> ([], [Request a start_time end_time])
           | HTTPError status_code \<Rightarrow>
               (if status_code = 500 \<and> attempt < max_retries - 1 then
                  (case get_historical_ohlc_loop remote a start_time end_time
                          (attempt + 1) (retry_delay * 2) of
                     (d, tr) \<Rightarrow> (d, Request a start_time end_time # Sleep retry_delay # tr))
                else ([], [Request a start_time end_time]))
           | OtherError \<Rightarrow> ([], [Request a start_time end_time]))"
  by pat_completeness auto
termination
  by (relation "measure (\<lambda>(remote, a, s, e, attempt, d). max_retries - attempt)") auto

declare get_historical_ohlc_loop.simps [simp del]

definition get_historical_ohlc ::
  "(nat \<Rightarrow> response) \<Rightarrow> string \<Rightarrow> int \<Rightarrow> int \<Rightarrow> raw_bar list \<times> event list" where
  "get_historical_ohlc remote a start_time end_time =
     get_historical_ohlc_loop remote a start_time end_time 0 3"

section \<open>Run orchestrator: \<^verbatim>\<open>run\<close>\<close>

text \<open>
  The state of a run: the archive files, the two lists of the summary, and the requests
  and sleeps so far. For each asset of the registry the environment gives the clock
  reading of its planning call and the remote source its requests meet.
\<close>

record state =
  files :: store
  successful_assets :: "string list"
  failed_assets :: "string list"
  trace :: "event list"

type_synonym input = "string \<times> int \<times> (nat \<Rightarrow> response)"

text \<open>
  The body of the loop \<^verbatim>\<open>for i, asset in enumerate(assets, 1)\<close>. The functions it calls
  catch their own exceptions, so its handler is never entered.
\<close>

definition process_asset :: "config \<Rightarrow> input \<Rightarrow> state \<Rightarrow> state" where
  "process_asset cfg inp st =
     (case inp of (a, now, remote) \<Rightarrow>
        (case calculate_time_range cfg now (files st) a of
           None \<Rightarrow> st\<lparr>successful_assets := successful_assets st @ [a]\<rparr>
         | Some (start_time, end_time) \<Rightarrow>
             (case get_historical_ohlc remote a start_time end_time of
                (raw_data, tr) \<Rightarrow>
                  (let st1 = st\<lparr>trace := trace st @ tr\<rparr>;
                       st2 = (if raw_data \<noteq> [] then
                                st1\<lparr>files := save_asset_data cfg (files st1)
                                               (process_ohlc_data raw_data a) a,
                                    successful_assets := successful_assets st1 @ [a]\<rparr>
                              else st1\<lparr>failed_assets := failed_assets st1 @ [a]\<rparr>)
                   in st2\<lparr>trace := trace st2 @ [Sleep (6 / 5)]\<rparr>))))"

definition run :: "config \<Rightarrow> input list \<Rightarrow> store \<Rightarrow> state" where
  "run cfg inputs fs =
     fold (process_asset cfg) inputs
       \<lparr>files = fs, successful_assets = [], failed_assets = [], trace = []\<rparr>"

text \<open>Runs one after another: each starts from the files the one before left.\<close>

fun runs :: "(config \<times> input list) list \<Rightarrow> store \<Rightarrow> store" where
  "runs [] fs = fs"
| "runs ((cfg, inputs) # rest) fs = runs rest (files (run cfg inputs fs))"


section \<open>Notions the properties are stated with\<close>

text \<open>The rows of the table an asset's file holds; none when there is no table.\<close>

definition archive_rows :: "store \<Rightarrow> string \<Rightarrow> dataframe" where
  "archive_rows fs a = (case fs a of Some (Table df) \<Rightarrow> df | _ \<Rightarrow> [])"

text \<open>The last row of a table that has the timestamp \<open>t\<close>.\<close>

fun latest :: "int option \<Rightarrow> dataframe \<Rightarrow> row option" where
  "latest t [] = None"
| "latest t (r # rs) =
     (case latest t rs of
        Some s \<Rightarrow> Some s
      | None \<Rightarrow> if timestamp r = t then Some r else None)"

text \<open>The order of \<^verbatim>\<open>sort_values\<close> on timestamps: instants ascending, NaT after them.\<close>

fun ts_less :: "int option \<Rightarrow> int option \<Rightarrow> bool" where
  "ts_less (Some x) (Some y) = (x < y)"
| "ts_less (Some x) None = True"
| "ts_less None y = False"

definition strictly_increasing :: "dataframe \<Rightarrow> bool" where
  "strictly_increasing df = sorted_wrt (\<lambda>r s. ts_less (timestamp r) (timestamp s)) df"

definition archives_ok :: "store \<Rightarrow> bool" where
  "archives_ok fs = (\<forall>a df. fs a = Some (Table df) \<longrightarrow> strictly_increasing df)"

text \<open>The records of a payload have pairwise different instants.\<close>

definition distinct_T :: "raw_bar list \<Rightarrow> bool" where
  "distinct_T raw_data =
     (case to_datetime_column (map (\<lambda>r. get_field r ''T'') raw_data) of
        Inl e \<Rightarrow> True
      | Inr ts \<Rightarrow> distinct ts)"

text \<open>
  A trace is paced when each of its requests is followed at once by a sleep of at least
  \<open>6 / 5\<close> (the 1.2 seconds of the rate budget).
\<close>

fun paced :: "event list \<Rightarrow> bool" where
  "paced [] = True"
| "paced (Sleep d # es) = paced es"
| "paced (Request a s e # Sleep d # es) = (6 / 5 \<le> d \<and> paced es)"
| "paced (Request a s e # es) = False"

text \<open>
  An asset for which a run has nothing new: the planner signals that no update is
  needed, or the fetch of the planned window comes back empty.
\<close>

definition nothing_new :: "config \<Rightarrow> store \<Rightarrow> input \<Rightarrow> bool" where
  "nothing_new cfg fs inp =
     (case inp of (a, now, remote) \<Rightarrow>
        (case calculate_time_range cfg now fs a of
           None \<Rightarrow> True
         | Some (start_time, end_time) \<Rightarrow>
             fst (get_historical_ohlc remote a start_time end_time) = []))"

text \<open>
  A step writes no timestamp twice by the overwrite path: where the planner gives a window
  and the asset has no archive file or \<^verbatim>\<open>full_historical\<close> is set, the series normalized
  from what the fetch returns has pairwise different timestamps. Nothing is asked of a step
  that is skipped or that takes the merge path. \<open>steps_ok\<close> asks it of every step of a run,
  each in the state the steps before it left, and \<open>runs_ok\<close> of every run, each on the
  files the runs before it left.
\<close>

definition step_ok :: "config \<Rightarrow> input \<Rightarrow> state \<Rightarrow> bool" where
  "step_ok cfg inp st =
     (case inp of (a, now, remote) \<Rightarrow>
        (case calculate_time_range cfg now (files st) a of
           None \<Rightarrow> True
         | Some (start_time, end_time) \<Rightarrow>
             files st a = None \<or> full_historical cfg \<longrightarrow>
               distinct (map timestamp
                 (process_ohlc_data (fst (get_historical_ohlc remote a start_time end_time)) a))))"

fun steps_ok :: "config \<Rightarrow> input list \<Rightarrow> state \<Rightarrow> bool" where
  "steps_ok cfg [] st = True"
| "steps_ok cfg (inp # inputs) st =
     (step_ok cfg inp st \<and> steps_ok cfg inputs (process_asset cfg inp st))"

fun runs_ok :: "(config \<times> input list) list \<Rightarrow> store \<Rightarrow> bool" where
  "runs_ok [] fs = True"
| "runs_ok ((cfg, inputs) # rest) fs =
     (steps_ok cfg inputs
        \<lparr>files = fs, successful_assets = [], failed_assets = [], trace = []\<rparr>
      \<and> runs_ok rest (files (run cfg inputs fs)))"


section \<open>Example data\<close>

definition bar :: "int \<Rightarrow> rat \<Rightarrow> rat \<Rightarrow> rat \<Rightarrow> rat \<Rightarrow> rat \<Rightarrow> string \<Rightarrow> row" where
  "bar t op hi lo cl vol a =
     \<lparr>timestamp = Some t, open_price = Some op, high = Some hi, low = Some lo,
      close_price = Some cl, volume = Some vol, asset = a, extra = []\<rparr>"

text \<open>Six bars of one asset.\<close>

definition week :: dataframe where
  "week = [bar 1 10 12 9 11 100 ''BTC'', bar 2 11 15 10 14 100 ''BTC'',
           bar 3 14 14 8 9 100 ''BTC'', bar 4 9 11 7 10 100 ''BTC'',
           bar 5 10 13 9 12 100 ''BTC'', bar 6 12 16 11 15 100 ''BTC'']"

text \<open>The bar of day \<open>d\<close> (its instant is the day's midnight) around the price \<open>px\<close>.\<close>

definition daily :: "int \<Rightarrow> rat \<Rightarrow> row" where
  "daily d px = bar (d * 86400000000000) px (px + 1) (px - 1) px 1000 ''BTC''"

text \<open>
  An archive with the days 1 to 10, each row with two stored indicator columns (one of a
  period that is not configured), and a fetch of the days 9 to 12 in which day 9 is revised.
\<close>

definition stored_days :: dataframe where
  "stored_days =
     map (\<lambda>d. (daily d 100)\<lparr>extra := [(''donchian_high_5'', Some 0), (''donchian_high_7'', Some 0)]\<rparr>)
       [1, 2, 3, 4, 5, 6, 7, 8, 9, 10]"

definition fetched_days :: dataframe where
  "fetched_days = [daily 9 150, daily 10 100, daily 11 100, daily 12 100]"

definition incremental :: config where
  "incremental = \<lparr>full_historical = False, days_back = 1\<rparr>"

definition btc_store :: store where
  "btc_store = Map.empty(''BTC'' \<mapsto> Table stored_days)"

text \<open>A record of the remote payload with all six fields, and payloads made of such.\<close>

definition raw_of :: "rat \<Rightarrow> rat \<Rightarrow> raw_bar" where
  "raw_of t px =
     [''T'' \<mapsto> JNum t, ''o'' \<mapsto> JNum px, ''h'' \<mapsto> JNum (px + 1), ''l'' \<mapsto> JNum (px - 1),
      ''c'' \<mapsto> JNum px, ''v'' \<mapsto> JNum 1000]"

definition two_days :: "raw_bar list" where
  "two_days = [raw_of 86400000 100, raw_of 172800000 110]"

definition same_day_twice :: "raw_bar list" where
  "same_day_twice = [raw_of 86400000 100, raw_of 86400000 101]"

definition serving :: "raw_bar list \<Rightarrow> nat \<Rightarrow> response" where
  "serving d = (\<lambda>k. Success (JsonList d))"

definition full_refresh :: config where
  "full_refresh = \<lparr>full_historical = True, days_back = 1\<rparr>"

text \<open>A payload without the field \<^verbatim>\<open>v\<close>, one whose instant is not a number, one whose
  second instant is beyond the year 2262, and one whose second record has an opening price
  that is not a number.\<close>

definition no_volume :: "raw_bar list" where
  "no_volume = [(raw_of 86400000 100)(''v'' := None)]"




text \<open>The state a run starts in, and a registry of two assets read on day 10 at 01:00:
  the archive of the first ends on day 10, the second has no archive and no data.\<close>

definition start :: "store \<Rightarrow> state" where
  "start fs = \<lparr>files = fs, successful_assets = [], failed_assets = [], trace = []\<rparr>"

definition quiet_inputs :: "input list" where
  "quiet_inputs = [(''BTC'', 867600000, serving two_days), (''ETH'', 867600000, serving [])]"

section \<open>The indicator engine computes the channels of every window\<close>

lemma length_set_column: "length (set_column n vs df) = min (length df) (length vs)"
  by (simp add: set_column_def)

lemma length_rolling: "length (rolling agg w m xs) = length xs"
  by (simp add: rolling_def)

lemma map_set_column:
  assumes "\<And>r e. g (r\<lparr>extra := e\<rparr>) = g r" and "length vs = length df"
  shows "map g (set_column n vs df) = map g df"
  using assms by (simp add: set_column_def list_eq_iff_nth_eq)

lemma cell_update:
  "cell (r\<lparr>extra := AList.update n v (extra r)\<rparr>) c = (if c = n then v else cell r c)"
  by (simp add: cell_def update_conv')

lemma column_set_column:
  assumes "length vs = length df"
  shows "column c (set_column n vs df) = (if c = n then vs else column c df)"
  using assms by (auto simp: column_def set_column_def list_eq_iff_nth_eq cell_update)

lemma col_names_differ:
  "high_col p \<noteq> low_col q" "high_col p \<noteq> mid_col q" "low_col p \<noteq> mid_col q"
  "low_col p \<noteq> high_col q" "mid_col p \<noteq> high_col q" "mid_col p \<noteq> low_col q"
  by (simp_all add: high_col_def low_col_def mid_col_def)

lemma col_names_eq:
  "high_col p = high_col q \<longleftrightarrow> str p = str q"
  "low_col p = low_col q \<longleftrightarrow> str p = str q"
  "mid_col p = mid_col q \<longleftrightarrow> str p = str q"
  by (simp_all add: high_col_def low_col_def mid_col_def)

lemma length_add_period: "length (add_period p df) = length df"
  by (simp add: add_period_def Let_def length_set_column length_rolling column_def)

lemma map_add_period:
  assumes "\<And>r e. g (r\<lparr>extra := e\<rparr>) = g r"
  shows "map g (add_period p df) = map g df"
  unfolding add_period_def Let_def
  by (simp add: map_set_column[where g=g, OF assms] map_set_column[where g=high] map_set_column[where g=low]
      length_set_column length_rolling column_def)

lemma column_add_period:
  "column c (add_period p df) =
     (if c = mid_col p then map (\<lambda>(h, l). mean2 h l)
         (zip (rolling list_max p p (map high df)) (rolling list_min p p (map low df)))
      else if c = low_col p then rolling list_min p p (map low df)
      else if c = high_col p then rolling list_max p p (map high df)
      else column c df)"
  unfolding add_period_def Let_def
  by (simp add: column_set_column map_set_column[where g=low] length_set_column length_rolling
      col_names_differ column_def[symmetric])


lemma str_periods:
  "map str donchian_periods = [''5'', ''10'', ''20'', ''30'', ''60'', ''90'', ''150'', ''250'', ''360'']"
  by (simp add: donchian_periods_def str.simps)

lemma str_inj_periods: "inj_on str (set donchian_periods)"
proof -
  have "distinct (map str donchian_periods)"
    unfolding str_periods by simp
  then show ?thesis by (simp add: distinct_map)
qed

lemma length_fold_add_period: "length (fold add_period ps df) = length df"
  by (induction ps arbitrary: df) (simp_all add: length_add_period)

lemma map_fold_add_period:
  assumes "\<And>r e. g (r\<lparr>extra := e\<rparr>) = g r"
  shows "map g (fold add_period ps df) = map g df"
  by (induction ps arbitrary: df) (simp_all add: map_add_period[where g=g, OF assms])

lemma column_fold_other:
  assumes "c \<notin> high_col ` set ps" "c \<notin> low_col ` set ps" "c \<notin> mid_col ` set ps"
  shows "column c (fold add_period ps df) = column c df"
  using assms by (induction ps arbitrary: df) (auto simp: column_add_period)


lemma col_not_in:
  assumes "str p \<notin> str ` set ps"
  shows "high_col p \<notin> high_col ` set ps" "high_col p \<notin> low_col ` set ps"
    "high_col p \<notin> mid_col ` set ps" "low_col p \<notin> high_col ` set ps"
    "low_col p \<notin> low_col ` set ps" "low_col p \<notin> mid_col ` set ps"
    "mid_col p \<notin> high_col ` set ps" "mid_col p \<notin> low_col ` set ps"
    "mid_col p \<notin> mid_col ` set ps"
  using assms by (auto simp: col_names_differ col_names_eq image_iff)

lemma column_fold_add_period:
  assumes "p \<in> set ps" and "inj_on str (set ps)"
  shows "column (high_col p) (fold add_period ps df) = rolling list_max p p (map high df)
       \<and> column (low_col p) (fold add_period ps df) = rolling list_min p p (map low df)
       \<and> column (mid_col p) (fold add_period ps df) =
           map (\<lambda>(h, l). mean2 h l)
             (zip (rolling list_max p p (map high df)) (rolling list_min p p (map low df)))"
  using assms
proof (induction ps arbitrary: df)
  case Nil
  then show ?case by simp
next
  case (Cons q ps)
  have inj: "inj_on str (set ps)"
    using Cons.prems(2) by (simp add: inj_on_def)
  have hl: "map high (add_period q df) = map high df" "map low (add_period q df) = map low df"
    by (simp_all add: map_add_period)
  show ?case
  proof (cases "p \<in> set ps")
    case True
    then show ?thesis using Cons.IH[OF True inj, of "add_period q df"] by (simp add: hl)
  next
    case False
    then have pq: "p = q" using Cons.prems by simp
    have "str p \<notin> str ` set ps"
      using False Cons.prems by (auto simp: inj_on_def)
    then have "column (high_col p) (fold add_period ps (add_period q df))
                = column (high_col p) (add_period q df)"
         and "column (low_col p) (fold add_period ps (add_period q df))
                = column (low_col p) (add_period q df)"
         and "column (mid_col p) (fold add_period ps (add_period q df))
                = column (mid_col p) (add_period q df)"
      by (simp_all add: column_fold_other col_not_in)
    then show ?thesis
      by (simp add: pq column_add_period col_names_differ)
  qed
qed


lemma window_at_nth:
  assumes "i < length xs"
  shows "window_at w xs i = map ((!) xs) [Suc i - w..<Suc i]"
proof -
  have "take (Suc i) xs = map ((!) xs) [0..<Suc i]"
    using assms by (metis Suc_leI map_nth take_map take_upt add_0)
  then show ?thesis
    by (simp add: window_at_def drop_map del: upt_Suc)
qed

lemma length_observations: "length (observations xs) \<le> length xs"
  by (induction xs rule: observations.induct) auto

lemma observations_all: "None \<notin> set xs \<Longrightarrow> observations xs = map the xs"
  by (induction xs rule: observations.induct) auto

lemma observations_some: "None \<in> set xs \<Longrightarrow> length (observations xs) < length xs"
proof (induction xs rule: observations.induct)
  case (2 xs)
  show ?case using length_observations[of xs] by simp
qed auto

lemma list_max_Max: "xs \<noteq> [] \<Longrightarrow> list_max xs = Max (set xs)"
proof (cases xs)
  case (Cons a as)
  then show ?thesis using Max.set_eq_fold[of a as] by simp
qed simp

lemma list_min_Min: "xs \<noteq> [] \<Longrightarrow> list_min xs = Min (set xs)"
proof (cases xs)
  case (Cons a as)
  then show ?thesis using Min.set_eq_fold[of a as] by simp
qed simp

lemma rolling_nth:
  assumes "i < length xs" and "0 < p"
  shows "rolling agg p p xs ! i =
     (if i + 1 < p then None
      else if \<exists>j\<in>{i + 1 - p..i}. xs ! j = None then None
      else Some (agg (map (\<lambda>j. the (xs ! j)) [i + 1 - p..<Suc i])))"
proof -
  let ?w = "window_at p xs i"
  have w: "?w = map ((!) xs) [Suc i - p..<Suc i]"
    by (rule window_at_nth[OF assms(1)])
  have lw: "length ?w = Suc i - (Suc i - p)"
    unfolding w by (simp del: upt_Suc)
  have set_w: "set ?w = (!) xs ` {i + 1 - p..i}"
    unfolding w by (simp add: atLeastLessThanSuc_atLeastAtMost del: upt_Suc)
  have r: "rolling agg p p xs ! i =
      (let obs = observations ?w in if obs = [] \<or> length obs < p then None else Some (agg obs))"
    using assms(1) by (simp add: rolling_def del: upt_Suc)
  show ?thesis
  proof (cases "i + 1 < p")
    case True
    then have "length (observations ?w) < p"
      using length_observations[of ?w] lw by simp
    then show ?thesis using True by (simp add: r Let_def)
  next
    case False
    then have lp: "length ?w = p" using lw by simp
    show ?thesis
    proof (cases "None \<in> set ?w")
      case True
      then have "length (observations ?w) < p"
        using observations_some[of ?w] lp by simp
      moreover have "\<exists>j\<in>{i + 1 - p..i}. xs ! j = None"
        using True unfolding set_w by (metis (no_types, lifting) imageE)
      ultimately show ?thesis using False by (simp add: r Let_def)
    next
      case nonan: False
      then have obs: "observations ?w = map the ?w"
        by (rule observations_all)
      have "\<not> (\<exists>j\<in>{i + 1 - p..i}. xs ! j = None)"
        using nonan unfolding set_w by (metis (no_types, lifting) imageI)
      moreover have "observations ?w \<noteq> []" "length (observations ?w) = p"
        using lp assms(2) unfolding obs by auto
      moreover have "map the ?w = map (\<lambda>j. the (xs ! j)) [i + 1 - p..<Suc i]"
        unfolding w by simp
      ultimately show ?thesis using False by (simp add: r Let_def obs)
    qed
  qed
qed


lemma rolling_map_nth:
  assumes "i < length df" and "0 < p" and "\<not> i + 1 < p"
  shows "(\<exists>j\<in>{i + 1 - p..i}. map f df ! j = None) = (\<exists>j\<in>{i + 1 - p..i}. f (df ! j) = None)"
    and "map (\<lambda>j. the (map f df ! j)) [i + 1 - p..<Suc i] \<noteq> []"
    and "set (map (\<lambda>j. the (map f df ! j)) [i + 1 - p..<Suc i])
           = (\<lambda>j. the (f (df ! j))) ` {i + 1 - p..i}"
proof -
  have in_range: "j < length df" if "j \<in> {i + 1 - p..i}" for j
    using that assms(1) by simp
  show "(\<exists>j\<in>{i + 1 - p..i}. map f df ! j = None) = (\<exists>j\<in>{i + 1 - p..i}. f (df ! j) = None)"
    using in_range by (metis nth_map)
  show "map (\<lambda>j. the (map f df ! j)) [i + 1 - p..<Suc i] \<noteq> []"
    using assms(2,3) by simp
  have "(\<lambda>j. the (map f df ! j)) ` {i + 1 - p..i} = (\<lambda>j. the (f (df ! j))) ` {i + 1 - p..i}"
    using in_range by (intro image_cong) simp_all
  then show "set (map (\<lambda>j. the (map f df ! j)) [i + 1 - p..<Suc i])
           = (\<lambda>j. the (f (df ! j))) ` {i + 1 - p..i}"
    by (simp add: atLeastLessThanSuc_atLeastAtMost del: upt_Suc)
qed

lemma rolling_max_nth:
  assumes "i < length df" and "0 < p"
  shows "rolling list_max p p (map f df) ! i =
     (if i + 1 < p then None
      else if \<exists>j\<in>{i + 1 - p..i}. f (df ! j) = None then None
      else Some (Max ((\<lambda>j. the (f (df ! j))) ` {i + 1 - p..i})))"
proof (cases "i + 1 < p")
  case True
  then show ?thesis using assms by (simp add: rolling_nth)
next
  case False
  note m = rolling_map_nth[OF assms False, of f]
  have len: "i < length (map f df)" using assms(1) by simp
  have agg: "list_max (map (\<lambda>j. the (map f df ! j)) [i + 1 - p..<Suc i])
      = Max ((\<lambda>j. the (f (df ! j))) ` {i + 1 - p..i})"
    by (simp only: list_max_Max[OF m(2)] m(3))
  show ?thesis
    by (simp only: rolling_nth[OF len assms(2)] m(1) agg)
qed

lemma rolling_min_nth:
  assumes "i < length df" and "0 < p"
  shows "rolling list_min p p (map f df) ! i =
     (if i + 1 < p then None
      else if \<exists>j\<in>{i + 1 - p..i}. f (df ! j) = None then None
      else Some (Min ((\<lambda>j. the (f (df ! j))) ` {i + 1 - p..i})))"
proof (cases "i + 1 < p")
  case True
  then show ?thesis using assms by (simp add: rolling_nth)
next
  case False
  note m = rolling_map_nth[OF assms False, of f]
  have len: "i < length (map f df)" using assms(1) by simp
  have agg: "list_min (map (\<lambda>j. the (map f df ! j)) [i + 1 - p..<Suc i])
      = Min ((\<lambda>j. the (f (df ! j))) ` {i + 1 - p..i})"
    by (simp only: list_min_Min[OF m(2)] m(3))
  show ?thesis
    by (simp only: rolling_nth[OF len assms(2)] m(1) agg)
qed

lemma periods_positive: "p \<in> set donchian_periods \<Longrightarrow> 0 < p"
  by (auto simp: donchian_periods_def)

lemma column_nth: "i < length df \<Longrightarrow> column c df ! i = cell (df ! i) c"
  by (simp add: column_def)

lemma donchian_cells:
  assumes "p \<in> set donchian_periods" and "i < length df"
  shows "cell (calculate_donchian_channels df ! i) (high_col p) = rolling list_max p p (map high df) ! i"
    and "cell (calculate_donchian_channels df ! i) (low_col p) = rolling list_min p p (map low df) ! i"
    and "cell (calculate_donchian_channels df ! i) (mid_col p) =
           mean2 (cell (calculate_donchian_channels df ! i) (high_col p))
                 (cell (calculate_donchian_channels df ! i) (low_col p))"
proof -
  let ?out = "fold add_period donchian_periods df"
  have out: "calculate_donchian_channels df = ?out"
    using assms(2) by (auto simp: calculate_donchian_channels_def)
  have len: "i < length ?out"
    using assms(2) by (simp add: length_fold_add_period)
  note cols = column_fold_add_period[OF assms(1) str_inj_periods, of df]
  show h: "cell (calculate_donchian_channels df ! i) (high_col p) = rolling list_max p p (map high df) ! i"
    using cols len by (simp add: out column_nth[symmetric])
  show l: "cell (calculate_donchian_channels df ! i) (low_col p) = rolling list_min p p (map low df) ! i"
    using cols len by (simp add: out column_nth[symmetric])
  have "cell (calculate_donchian_channels df ! i) (mid_col p) =
      map (\<lambda>(h, l). mean2 h l)
        (zip (rolling list_max p p (map high df)) (rolling list_min p p (map low df))) ! i"
    using cols len by (simp add: out column_nth[symmetric])
  also have "\<dots> = mean2 (rolling list_max p p (map high df) ! i) (rolling list_min p p (map low df) ! i)"
    using assms(2) by (simp add: length_rolling)
  finally show "cell (calculate_donchian_channels df ! i) (mid_col p) =
           mean2 (cell (calculate_donchian_channels df ! i) (high_col p))
                 (cell (calculate_donchian_channels df ! i) (low_col p))"
    by (simp add: h l)
qed

text \<open>
  Claim C2. For every table \<open>df\<close>, every configured period \<open>P\<close> and every position
  \<open>i\<close> of the table, the three indicator cells of row \<open>i\<close> after
  \<^verbatim>\<open>calculate_donchian_channels\<close> are NaN (absent) when \<open>i + 1 < P\<close>; otherwise
  \<^verbatim>\<open>donchian_high_P\<close> is the maximum of \<open>high\<close> over the positions \<open>i + 1 - P\<close> to \<open>i\<close>,
  \<^verbatim>\<open>donchian_low_P\<close> is the minimum of \<open>low\<close> over the same positions, and
  \<^verbatim>\<open>donchian_mid_P\<close> is the arithmetic mean of these two cells. Where a \<open>high\<close> (a
  \<open>low\<close>) of the window is itself NaN, the maximum (the minimum) is NaN, and so is the mean
  of a NaN.
\<close>

theorem donchian_channels_at_index:
  assumes "P \<in> set donchian_periods" and "i < length df"
  shows "cell (calculate_donchian_channels df ! i) (high_col P) =
           (if i + 1 < P then None
            else if \<exists>j\<in>{i + 1 - P..i}. high (df ! j) = None then None
            else Some (Max ((\<lambda>j. the (high (df ! j))) ` {i + 1 - P..i})))
       \<and> cell (calculate_donchian_channels df ! i) (low_col P) =
           (if i + 1 < P then None
            else if \<exists>j\<in>{i + 1 - P..i}. low (df ! j) = None then None
            else Some (Min ((\<lambda>j. the (low (df ! j))) ` {i + 1 - P..i})))
       \<and> cell (calculate_donchian_channels df ! i) (mid_col P) =
           (case (cell (calculate_donchian_channels df ! i) (high_col P),
                  cell (calculate_donchian_channels df ! i) (low_col P)) of
              (Some h, Some l) \<Rightarrow> Some ((h + l) / 2)
            | _ \<Rightarrow> None)"
proof -
  note c = donchian_cells[OF assms]
  have pos: "0 < P" by (rule periods_positive[OF assms(1)])
  have "mean2 a b = (case (a, b) of (Some h, Some l) \<Rightarrow> Some ((h + l) / 2) | _ \<Rightarrow> None)" for a b
    by (cases a; cases b) simp_all
  then show ?thesis
    using c(3) by (simp only: c(1,2) rolling_max_nth[OF assms(2) pos] rolling_min_nth[OF assms(2) pos] simp_thms)
qed

theorem donchian_channels_at_index_witness:
  "5 \<in> set donchian_periods \<and> 4 < length week \<and> 3 < length week
   \<and> cell (calculate_donchian_channels week ! 3) (high_col 5) = None
   \<and> cell (calculate_donchian_channels week ! 3) (low_col 5) = None
   \<and> cell (calculate_donchian_channels week ! 3) (mid_col 5) = None
   \<and> cell (calculate_donchian_channels week ! 4) (high_col 5) = Some 15
   \<and> cell (calculate_donchian_channels week ! 4) (low_col 5) = Some 7
   \<and> cell (calculate_donchian_channels week ! 4) (mid_col 5) = Some 11"
proof -
  have p: "5 \<in> set donchian_periods" by (simp add: donchian_periods_def)
  have i: "4 < length week" and j: "3 < length week" by (simp_all add: week_def)
  have s: "{4 + 1 - 5..4::nat} = {0, 1, 2, 3, 4}" "{0..4::nat} = {0, 1, 2, 3, 4}" by auto
  have absent: "cell (calculate_donchian_channels week ! 3) (high_col 5) = None
      \<and> cell (calculate_donchian_channels week ! 3) (low_col 5) = None
      \<and> cell (calculate_donchian_channels week ! 3) (mid_col 5) = None"
    using donchian_channels_at_index[OF p j] by simp
  have present: "cell (calculate_donchian_channels week ! 4) (high_col 5) = Some 15
      \<and> cell (calculate_donchian_channels week ! 4) (low_col 5) = Some 7
      \<and> cell (calculate_donchian_channels week ! 4) (mid_col 5) = Some 11"
    using donchian_channels_at_index[OF p i] by (simp add: s week_def bar_def)
  show ?thesis
    using p i j absent present by simp
qed

section \<open>Merging a new series into an archive\<close>

lemma ts_less_key: "ts_less a b \<longleftrightarrow> ts_key a < ts_key b"
  by (cases a; cases b) (simp_all add: ts_key_def)

lemma inj_ts_key: "inj ts_key"
  by (auto simp: inj_on_def ts_key_def split: option.splits)

lemma strictly_increasing_iff:
  "strictly_increasing df \<longleftrightarrow>
     sorted (map (\<lambda>r. ts_key (timestamp r)) df) \<and> distinct (map timestamp df)"
proof -
  have "strictly_increasing df \<longleftrightarrow> sorted_wrt (<) (map (\<lambda>r. ts_key (timestamp r)) df)"
    by (simp add: strictly_increasing_def sorted_wrt_map ts_less_key)
  also have "\<dots> \<longleftrightarrow> sorted (map (\<lambda>r. ts_key (timestamp r)) df)
                  \<and> distinct (map (\<lambda>r. ts_key (timestamp r)) df)"
    by (rule strict_sorted_iff)
  also have "distinct (map (\<lambda>r. ts_key (timestamp r)) df) \<longleftrightarrow> distinct (map timestamp df)"
    using distinct_map[of ts_key "map timestamp df"] inj_ts_key
    by (auto simp: comp_def intro: inj_on_subset)
  finally show ?thesis .
qed

lemma strictly_increasing_distinct: "strictly_increasing df \<Longrightarrow> distinct (map timestamp df)"
  by (simp add: strictly_increasing_iff)

lemma set_sort_values: "set (sort_values df) = set df"
  by (simp add: sort_values_def)

lemma mset_sort_values: "mset (sort_values df) = mset df"
  by (simp add: sort_values_def)

lemma length_sort_values: "length (sort_values df) = length df"
  by (simp add: sort_values_def)

lemma distinct_sort_values:
  "distinct (map timestamp (sort_values df)) \<longleftrightarrow> distinct (map timestamp df)"
proof -
  have "mset (map timestamp (sort_values df)) = mset (map timestamp df)"
    by (simp add: mset_sort_values)
  then show ?thesis by (metis mset_eq_imp_distinct_iff)
qed

lemma strictly_increasing_sort_values:
  "strictly_increasing (sort_values df) \<longleftrightarrow> distinct (map timestamp df)"
  by (simp add: strictly_increasing_iff distinct_sort_values) (simp add: sort_values_def)

lemma set_drop_duplicates: "set (map timestamp (drop_duplicates df)) = set (map timestamp df)"
  by (induction df) auto

lemma distinct_drop_duplicates: "distinct (map timestamp (drop_duplicates df))"
proof (induction df)
  case (Cons r rs)
  then show ?case using set_drop_duplicates[of rs] by auto
qed simp

lemma latest_None: "latest t df = None \<longleftrightarrow> t \<notin> set (map timestamp df)"
  by (induction df) (auto split: option.splits)


lemma latest_append:
  "latest t (xs @ ys) = (case latest t ys of Some s \<Rightarrow> Some s | None \<Rightarrow> latest t xs)"
  by (induction xs) (auto split: option.splits)

lemma drop_duplicates_latest:
  "r \<in> set (drop_duplicates df) \<Longrightarrow> latest (timestamp r) df = Some r"
proof (induction df)
  case (Cons x xs)
  show ?case
  proof (cases "timestamp x \<in> set (map timestamp xs)")
    case True
    then have "r \<in> set (drop_duplicates xs)" using Cons.prems by simp
    then show ?thesis using Cons.IH by simp
  next
    case False
    show ?thesis
    proof (cases "r = x")
      case True
      then have "latest (timestamp r) xs = None"
        using False by (simp add: latest_None)
      then show ?thesis using True by simp
    next
      case neq: False
      then have "r \<in> set (drop_duplicates xs)" using Cons.prems False by simp
      then show ?thesis using Cons.IH by simp
    qed
  qed
qed simp


lemma filter_update_dropped:
  "\<not> P (k, v) \<Longrightarrow> (\<And>w. \<not> P (k, w)) \<Longrightarrow> filter P (AList.update k v al) = filter P al"
  by (induction al) auto

lemma strip_row_update:
  "prefix ''donchian_'' n \<Longrightarrow> strip_row (r\<lparr>extra := AList.update n v (extra r)\<rparr>) = strip_row r"
  by (simp add: strip_row_def filter_update_dropped)

lemma strip_set_column:
  assumes "prefix ''donchian_'' n" and "length vs = length df"
  shows "map strip_row (set_column n vs df) = map strip_row df"
  using assms by (simp add: set_column_def list_eq_iff_nth_eq strip_row_update)

lemma col_prefix:
  "prefix ''donchian_'' (high_col p)" "prefix ''donchian_'' (low_col p)"
  "prefix ''donchian_'' (mid_col p)"
  by (simp_all add: high_col_def low_col_def mid_col_def)

lemma strip_add_period: "map strip_row (add_period p df) = map strip_row df"
  unfolding add_period_def Let_def
  by (simp add: strip_set_column col_prefix length_set_column length_rolling column_def)

lemma strip_fold_add_period: "map strip_row (fold add_period ps df) = map strip_row df"
  by (induction ps arbitrary: df) (simp_all add: strip_add_period)

lemma strip_calculate: "map strip_row (calculate_donchian_channels df) = map strip_row df"
  by (simp add: calculate_donchian_channels_def strip_fold_add_period)

lemma strip_row_idem: "strip_row (strip_row r) = strip_row r"
  by (simp add: strip_row_def)

lemma timestamp_strip_row: "timestamp (strip_row r) = timestamp r"
  by (simp add: strip_row_def)

lemma length_calculate: "length (calculate_donchian_channels df) = length df"
  by (simp add: calculate_donchian_channels_def length_fold_add_period)

lemma map_calculate:
  assumes "\<And>r e. g (r\<lparr>extra := e\<rparr>) = g r"
  shows "map g (calculate_donchian_channels df) = map g df"
  by (simp add: calculate_donchian_channels_def map_fold_add_period[where g=g, OF assms])

lemma timestamps_calculate: "map timestamp (calculate_donchian_channels df) = map timestamp df"
  by (rule map_calculate) simp

lemma strictly_increasing_calculate:
  "strictly_increasing (calculate_donchian_channels df) = strictly_increasing df"
proof -
  have "strictly_increasing x \<longleftrightarrow> sorted_wrt ts_less (map timestamp x)" for x
    by (simp add: strictly_increasing_def sorted_wrt_map)
  then show ?thesis by (simp add: timestamps_calculate)
qed

lemma strictly_increasing_strip:
  "strictly_increasing (map strip_row df) = strictly_increasing df"
  by (simp add: strictly_increasing_def sorted_wrt_map timestamp_strip_row)

text \<open>The table the merge path writes.\<close>

lemma recalculate_fixpoint:
  "recalculate_donchian_for_existing df =
     calculate_donchian_channels (map strip_row (recalculate_donchian_for_existing df))"
  by (simp add: recalculate_donchian_for_existing_def strip_calculate strip_row_idem comp_def)

lemma recalculate_rows:
  assumes "r \<in> set (recalculate_donchian_for_existing df)"
  shows "\<exists>s\<in>set df. strip_row r = strip_row s"
proof -
  let ?m = "recalculate_donchian_for_existing df"
  from assms obtain i where i: "i < length ?m" "?m ! i = r"
    by (auto simp: in_set_conv_nth)
  have len: "length ?m = length df"
    by (simp add: recalculate_donchian_for_existing_def length_calculate)
  have "map strip_row ?m = map strip_row df"
    by (simp add: recalculate_donchian_for_existing_def strip_calculate strip_row_idem comp_def)
  then have "strip_row (?m ! i) = strip_row (df ! i)"
    using i(1) len by (metis nth_map)
  then show ?thesis using i len by (metis nth_mem)
qed

lemma recalculate_timestamps:
  "map timestamp (recalculate_donchian_for_existing df) = map timestamp df"
  by (simp add: recalculate_donchian_for_existing_def timestamps_calculate timestamp_strip_row)

lemma strictly_increasing_merge:
  "strictly_increasing (recalculate_donchian_for_existing (sort_values (drop_duplicates df)))"
  by (simp add: recalculate_donchian_for_existing_def strictly_increasing_calculate
      strictly_increasing_strip strictly_increasing_sort_values distinct_drop_duplicates)

lemma save_merge:
  assumes "\<not> full_historical cfg" and "fs a = Some (Table existing_df)" and "df \<noteq> []"
  shows "save_asset_data cfg fs df a =
     fs(a \<mapsto> Table (recalculate_donchian_for_existing
                      (sort_values (drop_duplicates (existing_df @ df)))))"
  using assms by (simp add: save_asset_data_def)

lemma save_overwrite:
  assumes "fs a = None \<or> full_historical cfg" and "df \<noteq> []"
  shows "save_asset_data cfg fs df a = fs(a \<mapsto> Table df)"
  using assms by (auto simp: save_asset_data_def)

lemma map_recalculate:
  assumes "\<And>r e. g (r\<lparr>extra := e\<rparr>) = g r"
  shows "map g (recalculate_donchian_for_existing df) = map g df"
  by (simp add: recalculate_donchian_for_existing_def map_calculate[where g=g, OF assms]
      strip_row_def assms comp_def)

lemma cell_strip_row: "prefix ''donchian_'' c \<Longrightarrow> cell (strip_row r) c = None"
proof -
  assume "prefix ''donchian_'' c"
  then have "map_of (filter (\<lambda>(col, v). \<not> prefix ''donchian_'' col) al) c = None" for al :: "(string \<times> float64) list"
    by (induction al) auto
  then show ?thesis by (simp add: cell_def strip_row_def)
qed

lemma merged_days:
  "sort_values (drop_duplicates (stored_days @ fetched_days)) = take 8 stored_days @ fetched_days"
  by (simp add: stored_days_def fetched_days_def daily_def bar_def sort_values_def ts_key_def)

text \<open>
  Claim C1. With \<^verbatim>\<open>full_historical\<close> unset, an archive table \<open>existing_df\<close> and a new
  series \<open>df\<close> that is not empty, \<^verbatim>\<open>save_asset_data\<close> writes one table for the asset and
  leaves every other file alone. In the table written
  \<^item> the timestamps are strictly ascending (so no timestamp occurs twice);
  \<^item> the timestamps are those of the archive together with those of the new series;
  \<^item> every row is, in all columns but the \<^verbatim>\<open>donchian_*\<close> ones, the last row with its
    timestamp of the archive followed by the new series;
  \<^item> so for every timestamp of the new series the row is the newly fetched one, whatever
    the archive held for it;
  \<^item> the indicator columns are what the indicator engine computes over the written table
    itself once every \<^verbatim>\<open>donchian_*\<close> column is stripped from it: no stored indicator
    survives.
  The witness is the archive of the days 1 to 10 merged with a fetch of the days 9 to 12
  whose day 9 is revised.
\<close>

theorem merge_archive:
  assumes "\<not> full_historical cfg" and "fs a = Some (Table existing_df)" and "df \<noteq> []"
  shows "save_asset_data cfg fs df a = fs(a \<mapsto> Table (archive_rows (save_asset_data cfg fs df a) a))
    \<and> strictly_increasing (archive_rows (save_asset_data cfg fs df a) a)
    \<and> set (map timestamp (archive_rows (save_asset_data cfg fs df a) a))
         = set (map timestamp existing_df) \<union> set (map timestamp df)
    \<and> (\<forall>r\<in>set (archive_rows (save_asset_data cfg fs df a) a).
          \<exists>s. latest (timestamp r) (existing_df @ df) = Some s \<and> strip_row r = strip_row s)
    \<and> (\<forall>n\<in>set df. \<exists>r\<in>set (archive_rows (save_asset_data cfg fs df a) a).
          \<exists>s. timestamp r = timestamp n \<and> latest (timestamp n) df = Some s
             \<and> strip_row r = strip_row s)
    \<and> archive_rows (save_asset_data cfg fs df a) a
         = calculate_donchian_channels
             (map strip_row (archive_rows (save_asset_data cfg fs df a) a))"
proof -
  let ?x = "sort_values (drop_duplicates (existing_df @ df))"
  let ?m = "recalculate_donchian_for_existing ?x"
  note save = save_merge[of cfg fs a existing_df df, OF assms]
  have rows: "archive_rows (save_asset_data cfg fs df a) a = ?m"
    by (simp add: save archive_rows_def)
  have ts: "set (map timestamp ?m) = set (map timestamp existing_df) \<union> set (map timestamp df)"
    using set_drop_duplicates[of "existing_df @ df"]
    by (simp add: recalculate_timestamps set_sort_values)
  have newest: "\<exists>s. latest (timestamp r) (existing_df @ df) = Some s \<and> strip_row r = strip_row s"
    if "r \<in> set ?m" for r
  proof -
    from recalculate_rows[OF that] obtain s where s: "s \<in> set ?x" "strip_row r = strip_row s"
      by blast
    then have "latest (timestamp s) (existing_df @ df) = Some s"
      by (simp add: set_sort_values drop_duplicates_latest)
    moreover have "timestamp r = timestamp s"
      using s(2) by (metis timestamp_strip_row)
    ultimately show ?thesis using s(2) by auto
  qed
  have fresh: "\<exists>r\<in>set ?m. \<exists>s. timestamp r = timestamp n \<and> latest (timestamp n) df = Some s
      \<and> strip_row r = strip_row s" if "n \<in> set df" for n
  proof -
    have "timestamp n \<in> set (map timestamp ?m)"
      using that unfolding ts by simp
    then obtain r where r: "r \<in> set ?m" "timestamp r = timestamp n" by auto
    from newest[OF r(1)] obtain s where
      s: "latest (timestamp n) (existing_df @ df) = Some s" "strip_row r = strip_row s"
      using r(2) by auto
    have "latest (timestamp n) df \<noteq> None"
      using that by (simp add: latest_None)
    then have "latest (timestamp n) df = Some s"
      using s(1) by (auto simp: latest_append split: option.splits)
    then show ?thesis using r s(2) by blast
  qed
  show ?thesis
    unfolding rows
    using save strictly_increasing_merge[of "existing_df @ df"] ts newest fresh
      recalculate_fixpoint[of ?x]
    by blast
qed

theorem merge_archive_witness:
  "\<not> full_historical incremental \<and> btc_store ''BTC'' = Some (Table stored_days)
   \<and> fetched_days \<noteq> []
   \<and> strictly_increasing (archive_rows (save_asset_data incremental btc_store fetched_days ''BTC'') ''BTC'')
   \<and> map timestamp (archive_rows (save_asset_data incremental btc_store fetched_days ''BTC'') ''BTC'')
       = map (\<lambda>d. Some (d * 86400000000000)) [1, 2, 3, 4, 5, 6, 7, 8, 9, 10, 11, 12]
   \<and> map close_price (archive_rows (save_asset_data incremental btc_store fetched_days ''BTC'') ''BTC'')
       = map Some [100, 100, 100, 100, 100, 100, 100, 100, 150, 100, 100, 100]
   \<and> cell (archive_rows (save_asset_data incremental btc_store fetched_days ''BTC'') ''BTC'' ! 9)
        (high_col 10) = Some 151
   \<and> cell (archive_rows (save_asset_data incremental btc_store fetched_days ''BTC'') ''BTC'' ! 7)
        (high_col 5) = Some 101"
proof -
  let ?x = "take 8 stored_days @ fetched_days"
  let ?m = "archive_rows (save_asset_data incremental btc_store fetched_days ''BTC'') ''BTC''"
  have h: "\<not> full_historical incremental" "btc_store ''BTC'' = Some (Table stored_days)"
    "fetched_days \<noteq> []"
    by (simp_all add: incremental_def btc_store_def fetched_days_def)
  note t = merge_archive[of incremental btc_store "''BTC''" stored_days fetched_days, OF h]
  have m: "?m = recalculate_donchian_for_existing ?x"
    by (simp add: save_merge[of incremental btc_store "''BTC''" stored_days, OF h]
        archive_rows_def merged_days)
  have ts: "map timestamp ?m = map (\<lambda>d. Some (d * 86400000000000)) [1, 2, 3, 4, 5, 6, 7, 8, 9, 10, 11, 12]"
    unfolding m by (simp add: recalculate_timestamps stored_days_def fetched_days_def daily_def bar_def)
  have cl: "map close_price ?m = map Some [100, 100, 100, 100, 100, 100, 100, 100, 150, 100, 100, 100]"
    unfolding m by (simp add: map_recalculate stored_days_def fetched_days_def daily_def bar_def)
  have hs: "map high (map strip_row ?x)
      = map Some [101, 101, 101, 101, 101, 101, 101, 101, 151, 101, 101, 101]"
    by (simp add: stored_days_def fetched_days_def daily_def bar_def strip_row_def)
  have p: "10 \<in> set donchian_periods" "5 \<in> set donchian_periods"
    by (simp_all add: donchian_periods_def)
  have len: "9 < length (map strip_row ?x)" "7 < length (map strip_row ?x)"
    by (simp_all add: stored_days_def fetched_days_def)
  have s: "{0..9::nat} = {0, 1, 2, 3, 4, 5, 6, 7, 8, 9}" "{3..7::nat} = {3, 4, 5, 6, 7}"
    by auto
  have u: "[0..<10] = [0, 1, 2, 3, 4, 5, 6, 7, 8, 9::nat]" "[3..<8] = [3, 4, 5, 6, 7::nat]"
    by (simp_all add: upt_conv_Cons)
  have d10: "cell (?m ! 9) (high_col 10) = Some 151"
    unfolding m recalculate_donchian_for_existing_def donchian_cells(1)[OF p(1) len(1)] hs
    by (simp add: rolling_nth s u)
  have d5: "cell (?m ! 7) (high_col 5) = Some 101"
    unfolding m recalculate_donchian_for_existing_def donchian_cells(1)[OF p(2) len(2)] hs
    by (simp add: rolling_nth s u)
  show ?thesis
    using h t ts cl d10 d5 by blast
qed

section \<open>The planner and the fetcher\<close>

text \<open>
  Claim C4. With \<^verbatim>\<open>full_historical\<close> unset and an archive that is read, is not empty and
  whose last row has the instant \<open>t\<close>, \<^verbatim>\<open>calculate_time_range\<close> returns the signal that
  no update is needed exactly when the date of \<open>t\<close> is today's date (the date of \<open>now\<close>)
  or later; otherwise it returns the window from midnight of the day after the date of
  \<open>t\<close> to \<open>now\<close>; and when the date of \<open>t\<close> is yesterday, the window starts at today's
  midnight.
\<close>

theorem range_planner_incremental:
  assumes "\<not> full_historical cfg" and "fs a = Some (Table existing_df)"
    and "existing_df \<noteq> []" and "timestamp (last existing_df) = Some t"
  shows "(calculate_time_range cfg now fs a = None \<longleftrightarrow> timestamp_date t \<ge> date_of now)
    \<and> (timestamp_date t < date_of now \<longrightarrow>
         calculate_time_range cfg now fs a = Some ((timestamp_date t + 1) * day_ms, now))
    \<and> (timestamp_date t = date_of now - 1 \<longrightarrow>
         calculate_time_range cfg now fs a = Some (date_of now * day_ms, now))"
  using assms by (auto simp: calculate_time_range_def Let_def)

lemma last_stored_days:
  "stored_days \<noteq> []" "timestamp (last stored_days) = Some (10 * 86400000000000)"
  by (simp_all add: stored_days_def daily_def bar_def)

theorem range_planner_incremental_witness:
  "\<not> full_historical incremental \<and> btc_store ''BTC'' = Some (Table stored_days)
   \<and> stored_days \<noteq> [] \<and> timestamp (last stored_days) = Some (10 * 86400000000000)
   \<and> timestamp_date (10 * 86400000000000) = 10 \<and> date_of (10 * 86400000 + 3600000) = 10
   \<and> date_of (11 * 86400000 + 3600000) = 11
   \<and> calculate_time_range incremental (10 * 86400000 + 3600000) btc_store ''BTC'' = None
   \<and> calculate_time_range incremental (11 * 86400000 + 3600000) btc_store ''BTC''
       = Some (11 * 86400000, 11 * 86400000 + 3600000)"
proof -
  have h: "\<not> full_historical incremental" "btc_store ''BTC'' = Some (Table stored_days)"
    by (simp_all add: incremental_def btc_store_def)
  have d: "timestamp_date (10 * 86400000000000) = 10" "date_of (10 * 86400000 + 3600000) = 10"
    "date_of (11 * 86400000 + 3600000) = 11"
    by (simp_all add: date_of_def timestamp_date_def day_ms_def)
  note t = range_planner_incremental[of incremental btc_store "''BTC''" stored_days
      "10 * 86400000000000", OF h last_stored_days]
  have "calculate_time_range incremental (10 * 86400000 + 3600000) btc_store ''BTC'' = None"
    using t[of "10 * 86400000 + 3600000"] d by simp
  moreover have "calculate_time_range incremental (11 * 86400000 + 3600000) btc_store ''BTC''
       = Some (11 * 86400000, 11 * 86400000 + 3600000)"
    using t[of "11 * 86400000 + 3600000"] d by (simp add: day_ms_def)
  ultimately show ?thesis using h last_stored_days d by simp
qed

lemma loop_500:
  assumes "\<forall>k. remote k = HTTPError 500"
  shows "get_historical_ohlc remote a s e =
     ([], [Request a s e, Sleep 3, Request a s e, Sleep 6, Request a s e])"
  using assms
  by (simp add: get_historical_ohlc_def get_historical_ohlc_loop.simps[of remote a s e 0]
      get_historical_ohlc_loop.simps[of remote a s e "Suc 0"]
      get_historical_ohlc_loop.simps[of remote a s e "Suc (Suc 0)"] max_retries_def)

lemma loop_other_status:
  assumes "remote 0 = HTTPError status_code" and "status_code \<noteq> 500"
  shows "get_historical_ohlc remote a s e = ([], [Request a s e])"
  using assms
  by (simp add: get_historical_ohlc_def get_historical_ohlc_loop.simps[of remote a s e 0]
      max_retries_def)

text \<open>
  Claim C5, as amended. When every attempt of a request meets the HTTP status 500,
  \<^verbatim>\<open>get_historical_ohlc\<close> makes exactly three requests, sleeps 3 before the second and 6
  before the third, and returns the empty list. When the first attempt meets any other
  HTTP error status (another status of the 5xx class included), it makes that one request
  and returns the empty list, without a retry. The function has no other result than a
  list: nothing is raised.
\<close>

theorem fetcher_retries:
  "((\<forall>k. remote k = HTTPError 500) \<longrightarrow>
      get_historical_ohlc remote a s e =
        ([], [Request a s e, Sleep 3, Request a s e, Sleep 6, Request a s e]))
   \<and> (\<forall>status_code. remote 0 = HTTPError status_code \<and> status_code \<noteq> 500 \<longrightarrow>
        get_historical_ohlc remote a s e = ([], [Request a s e]))"
  using loop_500[of remote a s e] loop_other_status[of remote _ a s e] by blast

theorem fetcher_retries_witness:
  "(\<forall>k. (\<lambda>k. HTTPError 500) k = HTTPError 500)
   \<and> get_historical_ohlc (\<lambda>k. HTTPError 500) ''BTC'' 0 1000 =
        ([], [Request ''BTC'' 0 1000, Sleep 3, Request ''BTC'' 0 1000, Sleep 6,
              Request ''BTC'' 0 1000])
   \<and> (\<lambda>k. HTTPError 404) (0::nat) = HTTPError 404 \<and> (404::nat) \<noteq> 500
   \<and> get_historical_ohlc (\<lambda>k. HTTPError 404) ''BTC'' 0 1000 = ([], [Request ''BTC'' 0 1000])"
  using fetcher_retries[of "\<lambda>k. HTTPError 500" "''BTC''" 0 1000]
    fetcher_retries[of "\<lambda>k. HTTPError 404" "''BTC''" 0 1000]
  by simp

theorem fetcher_5xx_counterexample:
  "get_historical_ohlc (\<lambda>k. HTTPError 503) ''BTC'' 0 1000 = ([], [Request ''BTC'' 0 1000])
   \<and> snd (get_historical_ohlc (\<lambda>k. HTTPError 500) ''BTC'' 0 1000) =
        [Request ''BTC'' 0 1000, Sleep 3, Request ''BTC'' 0 1000, Sleep 6, Request ''BTC'' 0 1000]"
  by (simp add: loop_500 loop_other_status)

section \<open>The normalized series\<close>

lemma length_to_datetime_column: "to_datetime_column vs = Inr ts \<Longrightarrow> length ts = length vs"
  by (induction vs arbitrary: ts) (auto split: sum.splits)




lemma process_ohlc_data_rows:
  assumes "raw_data \<noteq> []" and "list_all (has_column raw_data) required_columns"
    and "to_datetime_column (map (\<lambda>r. get_field r ''T'') raw_data) = Inr ts"
  shows "process_ohlc_data raw_data a =
     calculate_donchian_channels (sort_values (map (\<lambda>(r, t). to_row a r t) (zip raw_data ts)))"
  using assms by (simp add: process_ohlc_data_def)

lemma process_ohlc_data_nonempty:
  assumes "process_ohlc_data raw_data a \<noteq> []"
  shows "raw_data \<noteq> [] \<and> list_all (has_column raw_data) required_columns
    \<and> (\<exists>ts. to_datetime_column (map (\<lambda>r. get_field r ''T'') raw_data) = Inr ts)"
  using assms by (auto simp: process_ohlc_data_def split: if_splits sum.splits)

lemma timestamps_to_rows:
  "length ts = length raw_data \<Longrightarrow>
   map timestamp (map (\<lambda>(r, t). to_row a r t) (zip raw_data ts)) = ts"
  by (simp add: list_eq_iff_nth_eq to_row_def)

lemma process_ohlc_data_timestamps:
  assumes "raw_data \<noteq> []" and "list_all (has_column raw_data) required_columns"
    and "to_datetime_column (map (\<lambda>r. get_field r ''T'') raw_data) = Inr ts"
  shows "mset (map timestamp (process_ohlc_data raw_data a)) = mset ts"
    and "length (process_ohlc_data raw_data a) = length raw_data"
    and "strictly_increasing (process_ohlc_data raw_data a) \<longleftrightarrow> distinct ts"
    and "distinct (map timestamp (process_ohlc_data raw_data a)) \<longleftrightarrow> distinct ts"
proof -
  let ?rows = "map (\<lambda>(r, t). to_row a r t) (zip raw_data ts)"
  have len: "length ts = length raw_data"
    using length_to_datetime_column[OF assms(3)] by simp
  have ts: "map timestamp ?rows = ts" by (rule timestamps_to_rows[OF len])
  have p: "process_ohlc_data raw_data a = calculate_donchian_channels (sort_values ?rows)"
    by (rule process_ohlc_data_rows[OF assms])
  have "mset (map timestamp (sort_values ?rows)) = mset (map timestamp ?rows)"
    by (simp only: mset_map mset_sort_values)
  then show "mset (map timestamp (process_ohlc_data raw_data a)) = mset ts"
    by (simp only: p timestamps_calculate ts)
  show "length (process_ohlc_data raw_data a) = length raw_data"
    by (simp add: p length_calculate length_sort_values len)
  show "strictly_increasing (process_ohlc_data raw_data a) \<longleftrightarrow> distinct ts"
    by (simp only: p strictly_increasing_calculate strictly_increasing_sort_values ts)
  show "distinct (map timestamp (process_ohlc_data raw_data a)) \<longleftrightarrow> distinct ts"
    by (simp only: p timestamps_calculate distinct_sort_values ts)
qed

lemma process_ohlc_data_fixpoint:
  "process_ohlc_data raw_data a =
     calculate_donchian_channels (map strip_row (process_ohlc_data raw_data a))"
proof (cases "process_ohlc_data raw_data a = []")
  case True
  then show ?thesis by (simp add: calculate_donchian_channels_def)
next
  case False
  from process_ohlc_data_nonempty[OF this] obtain ts where
    h: "raw_data \<noteq> []" "list_all (has_column raw_data) required_columns"
       "to_datetime_column (map (\<lambda>r. get_field r ''T'') raw_data) = Inr ts"
    by blast
  let ?rows = "sort_values (map (\<lambda>(r, t). to_row a r t) (zip raw_data ts))"
  have "strip_row r = r" if "r \<in> set ?rows" for r
    using that by (auto simp: set_sort_values strip_row_def to_row_def dest!: set_zip_leftD)
  then have "map strip_row ?rows = ?rows" by (simp add: map_idI)
  then show ?thesis
    by (simp add: process_ohlc_data_rows[OF h] strip_calculate)
qed

lemma process_ohlc_data_map:
  assumes "raw_data \<noteq> []" and "list_all (has_column raw_data) required_columns"
    and "to_datetime_column (map (\<lambda>r. get_field r ''T'') raw_data) = Inr ts"
    and "\<And>r e. g (r\<lparr>extra := e\<rparr>) = g r"
  shows "map g (process_ohlc_data raw_data a) =
     map g (sort_values (map (\<lambda>(r, t). to_row a r t) (zip raw_data ts)))"
  by (simp only: process_ohlc_data_rows[OF assms(1-3)] map_calculate[where g=g, OF assms(4)])

lemma two_days_ok:
  "two_days \<noteq> []" "list_all (has_column two_days) required_columns"
  "to_datetime_column (map (\<lambda>r. get_field r ''T'') two_days) = Inr [Some 86400000000000, Some 172800000000000]"
  by (simp_all add: two_days_def raw_of_def has_column_def required_columns_def get_field_def)

lemma same_day_twice_ok:
  "same_day_twice \<noteq> []" "list_all (has_column same_day_twice) required_columns"
  "to_datetime_column (map (\<lambda>r. get_field r ''T'') same_day_twice)
     = Inr [Some 86400000000000, Some 86400000000000]"
  by (simp_all add: same_day_twice_def raw_of_def has_column_def required_columns_def get_field_def)


lemma process_ohlc_data_sorted:
  "sorted (map (\<lambda>r. ts_key (timestamp r)) (process_ohlc_data raw_data a))"
proof (cases "process_ohlc_data raw_data a = []")
  case True
  then show ?thesis by simp
next
  case False
  from process_ohlc_data_nonempty[OF this] obtain ts where
    h: "raw_data \<noteq> []" "list_all (has_column raw_data) required_columns"
       "to_datetime_column (map (\<lambda>r. get_field r ''T'') raw_data) = Inr ts"
    by blast
  have "map (\<lambda>r. ts_key (timestamp r)) (process_ohlc_data raw_data a)
      = map (\<lambda>r. ts_key (timestamp r))
          (sort_values (map (\<lambda>(r, t). to_row a r t) (zip raw_data ts)))"
    by (rule process_ohlc_data_map[OF h]) simp
  then show ?thesis by (simp add: sort_values_def)
qed

lemma strictly_increasing_process_iff:
  "strictly_increasing (process_ohlc_data raw_data a)
     \<longleftrightarrow> distinct (map timestamp (process_ohlc_data raw_data a))"
  by (simp add: strictly_increasing_iff process_ohlc_data_sorted)


section \<open>The steps of a run\<close>

lemma process_asset_skip:
  assumes "calculate_time_range cfg now (files st) a = None"
  shows "process_asset cfg (a, now, remote) st = st\<lparr>successful_assets := successful_assets st @ [a]\<rparr>"
  using assms by (simp add: process_asset_def)

lemma process_asset_failed:
  assumes "calculate_time_range cfg now (files st) a = Some (s, e)"
    and "get_historical_ohlc remote a s e = ([], tr)"
  shows "process_asset cfg (a, now, remote) st =
     st\<lparr>trace := trace st @ tr @ [Sleep (6 / 5)], failed_assets := failed_assets st @ [a]\<rparr>"
  using assms by (simp add: process_asset_def Let_def)

lemma process_asset_saved:
  assumes "calculate_time_range cfg now (files st) a = Some (s, e)"
    and "get_historical_ohlc remote a s e = (raw_data, tr)" and "raw_data \<noteq> []"
  shows "process_asset cfg (a, now, remote) st =
     st\<lparr>trace := trace st @ tr @ [Sleep (6 / 5)],
        files := save_asset_data cfg (files st) (process_ohlc_data raw_data a) a,
        successful_assets := successful_assets st @ [a]\<rparr>"
  using assms by (simp add: process_asset_def Let_def)

lemma process_asset_nothing_new:
  assumes "nothing_new cfg (files st) inp"
  shows "files (process_asset cfg inp st) = files st"
proof -
  obtain a now remote where inp: "inp = (a, now, remote)" by (cases inp) auto
  show ?thesis
  proof (cases "calculate_time_range cfg now (files st) a")
    case None
    then show ?thesis by (simp add: inp process_asset_skip)
  next
    case (Some w)
    obtain s e where w: "w = (s, e)" by (cases w) auto
    obtain raw tr where f: "get_historical_ohlc remote a s e = (raw, tr)"
      by (cases "get_historical_ohlc remote a s e") auto
    have "raw = []" using assms Some w f by (simp add: nothing_new_def inp)
    then show ?thesis using Some w f by (simp add: inp process_asset_failed)
  qed
qed

lemma fold_nothing_new:
  assumes "list_all (nothing_new cfg (files st)) inputs"
  shows "files (fold (process_asset cfg) inputs st) = files st"
  using assms
proof (induction inputs arbitrary: st)
  case Nil
  then show ?case by simp
next
  case (Cons inp inputs)
  have keep: "files (process_asset cfg inp st) = files st"
    using Cons.prems by (simp add: process_asset_nothing_new)
  then have "list_all (nothing_new cfg (files (process_asset cfg inp st))) inputs"
    using Cons.prems by simp
  from Cons.IH[OF this] show ?case by (simp add: keep)
qed

lemma run_start: "run cfg inputs fs = fold (process_asset cfg) inputs (start fs)"
  by (simp add: run_def start_def)

lemma plan_no_archive:
  "fs a = None \<or> full_historical cfg \<Longrightarrow>
   calculate_time_range cfg now fs a = Some (now - 730 * day_ms, now)"
  by (auto simp: calculate_time_range_def)

lemma fetch_serving:
  "get_historical_ohlc (serving d) a s e =
     (if d \<noteq> [] then (d, [Request a s e]) else ([], [Request a s e]))"
  by (simp add: get_historical_ohlc_def serving_def max_retries_def
      get_historical_ohlc_loop.simps[of _ a s e 0])

lemma plan_btc_day10: "calculate_time_range incremental 867600000 btc_store ''BTC'' = None"
  by (simp add: calculate_time_range_def incremental_def btc_store_def last_stored_days
      date_of_def timestamp_date_def day_ms_def)

lemma plan_eth_day10:
  "calculate_time_range incremental 867600000 btc_store ''ETH'' = Some (- 62204400000, 867600000)"
  by (simp add: plan_no_archive btc_store_def day_ms_def)

lemma quiet_nothing_new: "list_all (nothing_new incremental btc_store) quiet_inputs"
  by (simp add: quiet_inputs_def nothing_new_def plan_btc_day10 plan_eth_day10 fetch_serving)

text \<open>
  Claim C6. In a run in which, for every asset, the planner signals that no update is
  needed or the fetch of the planned window comes back empty, no archive file is written:
  the files after the run are the files before it. So a second run that finds nothing new
  leaves what the first one stored as it is.
\<close>

theorem rerun_leaves_archives:
  assumes "list_all (nothing_new cfg fs) inputs"
  shows "files (run cfg inputs fs) = fs"
  using fold_nothing_new[of cfg "\<lparr>files = fs, successful_assets = [], failed_assets = [], trace = []\<rparr>" inputs]
    assms by (simp add: run_def)

theorem rerun_leaves_archives_witness:
  "list_all (nothing_new incremental btc_store) quiet_inputs
   \<and> calculate_time_range incremental 867600000 btc_store ''BTC'' = None
   \<and> fst (get_historical_ohlc (serving []) ''ETH'' (- 62204400000) 867600000) = []
   \<and> files (run incremental quiet_inputs btc_store) = btc_store
   \<and> files (run incremental quiet_inputs (files (run incremental quiet_inputs btc_store)))
       = btc_store"
  using rerun_leaves_archives[of incremental btc_store quiet_inputs] quiet_nothing_new
  by (simp add: plan_btc_day10 fetch_serving)

lemma paced_append: "paced xs \<Longrightarrow> paced ys \<Longrightarrow> paced (xs @ ys)"
  by (induction xs rule: paced.induct) auto

lemma paced_loop:
  assumes "6 / 5 \<le> d" and "6 / 5 \<le> retry_delay"
  shows "paced (snd (get_historical_ohlc_loop remote a s e attempt retry_delay) @ [Sleep d])"
  using assms
proof (induction remote a s e attempt retry_delay rule: get_historical_ohlc_loop.induct)
  case (1 remote a s e attempt retry_delay)
  show ?case
  proof (cases "remote attempt = HTTPError 500 \<and> attempt < max_retries - 1")
    case True
    then have "6 / 5 \<le> retry_delay * 2" using "1.prems" by simp
    then have "paced (snd (get_historical_ohlc_loop remote a s e (attempt + 1) (retry_delay * 2))
        @ [Sleep d])"
      using "1.IH"[of 500] True "1.prems" by (simp add: max_retries_def)
    then show ?thesis
      using True "1.prems"
      by (subst get_historical_ohlc_loop.simps) (auto simp: max_retries_def split: prod.splits)
  next
    case False
    then show ?thesis
      using "1.prems"
      by (subst get_historical_ohlc_loop.simps)
         (auto simp: max_retries_def split: response.splits body.splits)
  qed
qed

lemma paced_fetch: "paced (snd (get_historical_ohlc remote a s e) @ [Sleep (6 / 5)])"
  by (simp add: get_historical_ohlc_def paced_loop)

lemma process_asset_trace:
  "trace (process_asset cfg (a, now, remote) st) =
     (case calculate_time_range cfg now (files st) a of
        None \<Rightarrow> trace st
      | Some (s, e) \<Rightarrow> trace st @ snd (get_historical_ohlc remote a s e) @ [Sleep (6 / 5)])"
  by (auto simp: process_asset_def Let_def split: option.splits prod.splits)

lemma paced_process_asset:
  assumes "paced (trace st)"
  shows "paced (trace (process_asset cfg inp st))"
proof -
  obtain a now remote where inp: "inp = (a, now, remote)" by (cases inp) auto
  show ?thesis
    unfolding inp process_asset_trace
    using assms by (auto split: option.splits intro: paced_append paced_fetch)
qed

lemma paced_fold:
  "paced (trace st) \<Longrightarrow> paced (trace (fold (process_asset cfg) inputs st))"
  by (induction inputs arbitrary: st) (simp_all add: paced_process_asset)

text \<open>
  Claim C7, as amended. The step of an asset whose planner signals that no update is
  needed makes no request and adds no delay. The step of every other asset, whether its
  fetch brings data or not, adds the requests and sleeps of the fetch and then one sleep of
  \<open>6 / 5\<close> (1.2 seconds). In the trace of a whole run every bar request is followed at once
  by a sleep of at least \<open>6 / 5\<close>: two successive bar requests are never closer than
  that.
\<close>

theorem pacing_after_fetch:
  "(calculate_time_range cfg now (files st) a = None \<longrightarrow>
      trace (process_asset cfg (a, now, remote) st) = trace st)
   \<and> (\<forall>s e. calculate_time_range cfg now (files st) a = Some (s, e) \<longrightarrow>
        trace (process_asset cfg (a, now, remote) st)
          = trace st @ snd (get_historical_ohlc remote a s e) @ [Sleep (6 / 5)])
   \<and> paced (trace (run cfg inputs fs))"
  by (simp add: process_asset_trace run_def paced_fold)

theorem pacing_after_fetch_witness:
  "calculate_time_range incremental 867600000 (files (start btc_store)) ''BTC'' = None
   \<and> trace (process_asset incremental (''BTC'', 867600000, serving []) (start btc_store))
       = trace (start btc_store)
   \<and> calculate_time_range incremental 867600000 (files (start btc_store)) ''ETH''
       = Some (- 62204400000, 867600000)
   \<and> trace (process_asset incremental (''ETH'', 867600000, serving []) (start btc_store))
       = [Request ''ETH'' (- 62204400000) 867600000, Sleep (6 / 5)]
   \<and> paced (trace (run incremental quiet_inputs btc_store))
   \<and> trace (run incremental quiet_inputs btc_store)
       = [Request ''ETH'' (- 62204400000) 867600000, Sleep (6 / 5)]"
proof -
  have f: "files (start btc_store) = btc_store" "trace (start btc_store) = []"
    by (simp_all add: start_def)
  note t1 = pacing_after_fetch[of incremental 867600000 "start btc_store" "''BTC''" "serving []"
      quiet_inputs btc_store]
  note t2 = pacing_after_fetch[of incremental 867600000 "start btc_store" "''ETH''" "serving []"
      quiet_inputs btc_store]
  have skip: "process_asset incremental (''BTC'', 867600000, serving two_days) (start btc_store)
      = (start btc_store)\<lparr>successful_assets := [''BTC'']\<rparr>"
    by (simp add: process_asset_skip f plan_btc_day10) (simp add: start_def)
  have "run incremental quiet_inputs btc_store
      = process_asset incremental (''ETH'', 867600000, serving [])
          ((start btc_store)\<lparr>successful_assets := [''BTC'']\<rparr>)"
    by (simp add: run_start quiet_inputs_def skip)
  then have tr: "trace (run incremental quiet_inputs btc_store)
      = [Request ''ETH'' (- 62204400000) 867600000, Sleep (6 / 5)]"
    by (simp add: process_asset_trace f plan_eth_day10 fetch_serving)
  show ?thesis
    using t1 t2 tr by (simp add: f plan_btc_day10 plan_eth_day10 fetch_serving)
qed

theorem skip_without_delay_counterexample:
  "calculate_time_range incremental 867600000 btc_store ''BTC'' = None
   \<and> successful_assets (run incremental [(''BTC'', 867600000, serving two_days)] btc_store)
       = [''BTC'']
   \<and> trace (run incremental [(''BTC'', 867600000, serving two_days)] btc_store) = []"
  by (simp add: run_start plan_btc_day10 process_asset_skip start_def)

lemma no_volume_facts: "no_volume \<noteq> []" "''v'' \<in> set required_columns"
  "\<not> has_column no_volume ''v''"
  by (simp_all add: no_volume_def required_columns_def has_column_def raw_of_def)

text \<open>
  Claim C8. When the planner gives a window, the fetch returns a payload that is not empty
  and one of the required columns \<^verbatim>\<open>T, o, h, l, c, v\<close> occurs in no record of it, the
  normalizer returns the empty table, the step writes no file, and the asset is added to
  \<^verbatim>\<open>successful_assets\<close> and not to \<^verbatim>\<open>failed_assets\<close>.
\<close>

theorem missing_column_counted_successful:
  assumes "calculate_time_range cfg now (files st) a = Some (s, e)"
    and "get_historical_ohlc remote a s e = (raw_data, tr)" and "raw_data \<noteq> []"
    and "col \<in> set required_columns" and "\<not> has_column raw_data col"
  shows "process_ohlc_data raw_data a = []
    \<and> files (process_asset cfg (a, now, remote) st) = files st
    \<and> successful_assets (process_asset cfg (a, now, remote) st) = successful_assets st @ [a]
    \<and> failed_assets (process_asset cfg (a, now, remote) st) = failed_assets st"
proof -
  have "\<not> list_all (has_column raw_data) required_columns"
    using assms(4,5) by (auto simp: list_all_iff)
  then have empty: "process_ohlc_data raw_data a = []"
    by (simp add: process_ohlc_data_def)
  then show ?thesis
    by (simp add: process_asset_saved[OF assms(1-3)] save_asset_data_def)
qed

theorem missing_column_counted_successful_witness:
  "calculate_time_range incremental 867600000 (files (start btc_store)) ''ETH''
     = Some (- 62204400000, 867600000)
   \<and> get_historical_ohlc (serving no_volume) ''ETH'' (- 62204400000) 867600000
       = (no_volume, [Request ''ETH'' (- 62204400000) 867600000])
   \<and> no_volume \<noteq> [] \<and> ''v'' \<in> set required_columns \<and> \<not> has_column no_volume ''v''
   \<and> process_ohlc_data no_volume ''ETH'' = []
   \<and> files (process_asset incremental (''ETH'', 867600000, serving no_volume) (start btc_store))
       = btc_store
   \<and> successful_assets
        (process_asset incremental (''ETH'', 867600000, serving no_volume) (start btc_store))
       = [''ETH'']
   \<and> failed_assets
        (process_asset incremental (''ETH'', 867600000, serving no_volume) (start btc_store))
       = []"
proof -
  have p: "calculate_time_range incremental 867600000 (files (start btc_store)) ''ETH''
     = Some (- 62204400000, 867600000)"
    by (simp add: start_def plan_eth_day10)
  have f: "get_historical_ohlc (serving no_volume) ''ETH'' (- 62204400000) 867600000
       = (no_volume, [Request ''ETH'' (- 62204400000) 867600000])"
    by (simp add: fetch_serving no_volume_facts)
  from missing_column_counted_successful[OF p f no_volume_facts]
  show ?thesis using p f no_volume_facts by (simp add: start_def)
qed

section \<open>What a save writes of a new series\<close>

lemma archive_rows_upd: "archive_rows (fs(a \<mapsto> Table df)) a = df"
  by (simp add: archive_rows_def)

text \<open>
  Claim C10. On the overwrite path (no archive file, or \<^verbatim>\<open>full_historical\<close> set) a
  normalized series that is not empty is written as it is: the archive is the series,
  which carries the indicators the engine computes over its own rows; it has one row per
  record of the payload and the instants of the payload, each as often as the payload has
  it; so the stored timestamps are pairwise different exactly when the instants of the
  payload are.
\<close>

theorem overwrite_keeps_payload:
  assumes "fs a = None \<or> full_historical cfg" and "process_ohlc_data raw_data a \<noteq> []"
  shows "save_asset_data cfg fs (process_ohlc_data raw_data a) a
           = fs(a \<mapsto> Table (process_ohlc_data raw_data a))
    \<and> process_ohlc_data raw_data a
         = calculate_donchian_channels (map strip_row (process_ohlc_data raw_data a))
    \<and> length (archive_rows (save_asset_data cfg fs (process_ohlc_data raw_data a) a) a)
         = length raw_data
    \<and> (\<exists>ts. to_datetime_column (map (\<lambda>r. get_field r ''T'') raw_data) = Inr ts
          \<and> mset (map timestamp
                (archive_rows (save_asset_data cfg fs (process_ohlc_data raw_data a) a) a))
              = mset ts)
    \<and> (distinct (map timestamp
           (archive_rows (save_asset_data cfg fs (process_ohlc_data raw_data a) a) a))
         \<longleftrightarrow> distinct_T raw_data)"
proof -
  let ?df = "process_ohlc_data raw_data a"
  from process_ohlc_data_nonempty[OF assms(2)] obtain ts where
    h: "raw_data \<noteq> []" "list_all (has_column raw_data) required_columns"
       "to_datetime_column (map (\<lambda>r. get_field r ''T'') raw_data) = Inr ts"
    by blast
  note t = process_ohlc_data_timestamps[OF h, of a]
  have save: "save_asset_data cfg fs ?df a = fs(a \<mapsto> Table ?df)"
    by (rule save_overwrite[of fs a cfg ?df, OF assms])
  have dT: "distinct_T raw_data = distinct ts"
    by (simp add: distinct_T_def h(3))
  show ?thesis
    unfolding save archive_rows_upd
    using process_ohlc_data_fixpoint[of raw_data a] t h(3) dT by auto
qed

theorem overwrite_keeps_payload_witness:
  "(Map.empty ''BTC'' = (None :: archive option) \<or> full_historical incremental)
   \<and> process_ohlc_data same_day_twice ''BTC'' \<noteq> []
   \<and> save_asset_data incremental Map.empty (process_ohlc_data same_day_twice ''BTC'') ''BTC''
       = Map.empty(''BTC'' \<mapsto> Table (process_ohlc_data same_day_twice ''BTC''))
   \<and> length (archive_rows
        (save_asset_data incremental Map.empty (process_ohlc_data same_day_twice ''BTC'') ''BTC'')
        ''BTC'') = 2
   \<and> \<not> distinct_T same_day_twice
   \<and> \<not> distinct (map timestamp (archive_rows
        (save_asset_data incremental Map.empty (process_ohlc_data same_day_twice ''BTC'') ''BTC'')
        ''BTC''))"
proof -
  let ?df = "process_ohlc_data same_day_twice ''BTC''"
  have h: "Map.empty ''BTC'' = (None :: archive option) \<or> full_historical incremental" by simp
  have ne: "?df \<noteq> []"
    using process_ohlc_data_timestamps(2)[OF same_day_twice_ok, of "''BTC''"] same_day_twice_ok(1)
    by auto
  have nd: "\<not> distinct_T same_day_twice"
    by (simp add: distinct_T_def same_day_twice_ok)
  have len: "length same_day_twice = 2" by (simp add: same_day_twice_def)
  from overwrite_keeps_payload[of Map.empty "''BTC''" incremental same_day_twice, OF h ne]
  show ?thesis using h ne nd len by auto
qed








section \<open>Ascending timestamps over runs\<close>

lemma archives_ok_upd:
  "archives_ok fs \<Longrightarrow> strictly_increasing df \<Longrightarrow> archives_ok (fs(a \<mapsto> Table df))"
  by (simp add: archives_ok_def)

lemma archives_ok_upd_iff:
  "archives_ok fs \<Longrightarrow> archives_ok (fs(a \<mapsto> Table df)) \<longleftrightarrow> strictly_increasing df"
  by (auto simp: archives_ok_def)

lemma archives_ok_rows: "archives_ok fs \<Longrightarrow> strictly_increasing (archive_rows fs a)"
  by (auto simp: archives_ok_def archive_rows_def strictly_increasing_def
      split: option.splits archive.splits)

text \<open>The merge path keeps the archives ascending whatever the new series is.\<close>

lemma archives_ok_save_merge:
  assumes "archives_ok fs" and "fs a \<noteq> None" and "\<not> full_historical cfg"
  shows "archives_ok (save_asset_data cfg fs df a)"
proof -
  have "archives_ok (fs(a \<mapsto> Table (recalculate_donchian_for_existing
          (sort_values (drop_duplicates (x @ df))))))" for x
    using assms(1) by (rule archives_ok_upd) (rule strictly_increasing_merge)
  then show ?thesis
    using assms by (auto simp: save_asset_data_def split: option.splits archive.splits)
qed

text \<open>The overwrite path keeps them ascending exactly when the series has no timestamp twice.\<close>

lemma archives_ok_save_overwrite:
  assumes "archives_ok fs" and "fs a = None \<or> full_historical cfg"
  shows "archives_ok (save_asset_data cfg fs (process_ohlc_data raw_data a) a)
     \<longleftrightarrow> distinct (map timestamp (process_ohlc_data raw_data a))"
proof (cases "process_ohlc_data raw_data a = []")
  case True
  then show ?thesis using assms(1) by (simp add: save_asset_data_def)
next
  case False
  show ?thesis
    by (simp add: save_overwrite[of fs a cfg "process_ohlc_data raw_data a", OF assms(2) False]
        archives_ok_upd_iff[OF assms(1)] strictly_increasing_process_iff)
qed

lemma archives_ok_step:
  assumes "archives_ok (files st)"
  shows "archives_ok (files (process_asset cfg inp st)) \<longleftrightarrow> step_ok cfg inp st"
proof -
  obtain a now remote where inp: "inp = (a, now, remote)" by (cases inp) auto
  show ?thesis
  proof (cases "calculate_time_range cfg now (files st) a")
    case None
    then show ?thesis using assms by (simp add: inp process_asset_skip step_ok_def)
  next
    case (Some w)
    obtain s e where w: "w = (s, e)" by (cases w) auto
    obtain raw tr where f: "get_historical_ohlc remote a s e = (raw, tr)"
      by (cases "get_historical_ohlc remote a s e") auto
    have ok: "step_ok cfg (a, now, remote) st \<longleftrightarrow>
        (files st a = None \<or> full_historical cfg \<longrightarrow>
           distinct (map timestamp (process_ohlc_data raw a)))"
      by (simp add: step_ok_def Some w f)
    show ?thesis
    proof (cases "raw = []")
      case True
      then have "process_ohlc_data raw a = []" by (simp add: process_ohlc_data_def)
      then show ?thesis
        using assms Some w f True by (simp add: inp ok process_asset_failed)
    next
      case False
      have files: "files (process_asset cfg (a, now, remote) st)
          = save_asset_data cfg (files st) (process_ohlc_data raw a) a"
        using Some w f False
        by (simp add: process_asset_saved[of cfg now st a s e remote raw tr])
      show ?thesis
      proof (cases "files st a = None \<or> full_historical cfg")
        case True
        then show ?thesis
          by (simp add: inp ok files archives_ok_save_overwrite[OF assms True])
      next
        case merge: False
        then show ?thesis
          using archives_ok_save_merge[OF assms, of a cfg] by (auto simp: inp ok files)
      qed
    qed
  qed
qed

lemma archives_ok_steps:
  assumes "archives_ok (files st)" and "steps_ok cfg inputs st"
  shows "archives_ok (files (fold (process_asset cfg) inputs st))"
  using assms
proof (induction inputs arbitrary: st)
  case Nil
  then show ?case by simp
next
  case (Cons inp inputs)
  have "archives_ok (files (process_asset cfg inp st))"
    using Cons.prems by (simp add: archives_ok_step)
  then show ?case using Cons.IH Cons.prems by simp
qed

lemma archives_ok_runs:
  assumes "archives_ok fs" and "runs_ok rs fs"
  shows "archives_ok (runs rs fs)"
  using assms
proof (induction rs arbitrary: fs)
  case Nil
  then show ?case by simp
next
  case (Cons r rs)
  obtain cfg inputs where r: "r = (cfg, inputs)" by (cases r) auto
  have "archives_ok (files (run cfg inputs fs))"
    unfolding run_def using Cons.prems by (intro archives_ok_steps) (simp_all add: r)
  then show ?case using Cons.IH Cons.prems by (simp add: r)
qed

lemma first_fetch:
  assumes "files st a = None \<or> full_historical cfg" and "d \<noteq> []"
    and "process_ohlc_data d a \<noteq> []"
  shows "files (process_asset cfg (a, now, serving d) st)
           = (files st)(a \<mapsto> Table (process_ohlc_data d a))"
proof -
  have p: "calculate_time_range cfg now (files st) a = Some (now - 730 * day_ms, now)"
    using assms(1) by (simp add: plan_no_archive)
  have f: "get_historical_ohlc (serving d) a (now - 730 * day_ms) now
      = (d, [Request a (now - 730 * day_ms) now])"
    using assms(2) by (simp add: fetch_serving)
  show ?thesis
    by (simp add: process_asset_saved[OF p f assms(2)]
        save_overwrite[of "files st" a cfg "process_ohlc_data d a", OF assms(1) assms(3)])
qed

lemma step_ok_merge:
  "files st a \<noteq> None \<Longrightarrow> \<not> full_historical cfg \<Longrightarrow> step_ok cfg (a, now, remote) st"
  by (auto simp: step_ok_def split: option.splits)

lemma step_ok_serving:
  assumes "distinct (map timestamp (process_ohlc_data d a))"
  shows "step_ok cfg (a, now, serving d) st"
proof -
  have "process_ohlc_data [] a = []" by (simp add: process_ohlc_data_def)
  then show ?thesis
    using assms by (simp add: step_ok_def fetch_serving split: option.splits)
qed

text \<open>
  Claim C3, as amended. Start from files in which every archive table has strictly
  ascending timestamps (no file at all, for one). Then after any number of runs, of either
  mode and in any order, in which every series written by the overwrite path (first fetch
  of an asset, or full-historical run) has pairwise different timestamps, every archive
  table has strictly ascending timestamps, and so no timestamp twice. Nothing is asked of
  the payloads that go through the merge path. The condition cannot be dropped: a step
  that starts from ascending archives leaves them ascending exactly when it meets it.
\<close>

theorem archives_stay_increasing:
  "(archives_ok fs \<and> runs_ok rs fs \<longrightarrow>
      archives_ok (runs rs fs)
    \<and> strictly_increasing (archive_rows (runs rs fs) a)
    \<and> distinct (map timestamp (archive_rows (runs rs fs) a)))
   \<and> (archives_ok (files st) \<longrightarrow>
        (archives_ok (files (process_asset cfg inp st)) \<longleftrightarrow> step_ok cfg inp st))"
  using archives_ok_runs[of fs rs] archives_ok_rows[of "runs rs fs" a]
    strictly_increasing_distinct[of "archive_rows (runs rs fs) a"] archives_ok_step[of st cfg inp]
  by blast

theorem archives_stay_increasing_witness:
  "archives_ok Map.empty
   \<and> \<not> distinct_T same_day_twice
   \<and> runs_ok [(incremental, [(''BTC'', 200000000, serving two_days)]),
              (incremental, [(''BTC'', 300000000, serving same_day_twice)]),
              (full_refresh, [(''BTC'', 300000000, serving two_days)])] Map.empty
   \<and> archives_ok (runs [(incremental, [(''BTC'', 200000000, serving two_days)]),
                        (incremental, [(''BTC'', 300000000, serving same_day_twice)]),
                        (full_refresh, [(''BTC'', 300000000, serving two_days)])] Map.empty)
   \<and> strictly_increasing
        (archive_rows (runs [(incremental, [(''BTC'', 200000000, serving two_days)]),
                        (incremental, [(''BTC'', 300000000, serving same_day_twice)]),
                        (full_refresh, [(''BTC'', 300000000, serving two_days)])] Map.empty)
           ''BTC'')
   \<and> map timestamp
        (archive_rows (runs [(incremental, [(''BTC'', 200000000, serving two_days)]),
                        (incremental, [(''BTC'', 300000000, serving same_day_twice)]),
                        (full_refresh, [(''BTC'', 300000000, serving two_days)])] Map.empty)
           ''BTC'')
       = [Some 86400000000000, Some 172800000000000]
   \<and> runs_ok [(incremental, [(''BTC'', 200000000, serving two_days)]),
              (incremental, [(''BTC'', 300000000, serving same_day_twice)])] Map.empty
   \<and> distinct (map timestamp
        (archive_rows (runs [(incremental, [(''BTC'', 200000000, serving two_days)]),
                        (incremental, [(''BTC'', 300000000, serving same_day_twice)])] Map.empty)
           ''BTC''))
   \<and> archives_ok (files (start Map.empty))
   \<and> step_ok incremental (''BTC'', 200000000, serving two_days) (start Map.empty)
   \<and> archives_ok (files
        (process_asset incremental (''BTC'', 200000000, serving two_days) (start Map.empty)))"
proof -
  let ?r1 = "(incremental, [(''BTC'', 200000000, serving two_days)])"
  let ?r2 = "(incremental, [(''BTC'', 300000000, serving same_day_twice)])"
  let ?r3 = "(full_refresh, [(''BTC'', 300000000, serving two_days)])"
  let ?df = "process_ohlc_data two_days ''BTC''"
  have ok: "archives_ok Map.empty" by (simp add: archives_ok_def)
  have ok0: "archives_ok (files (start Map.empty))" by (simp add: archives_ok_def start_def)
  have nd: "\<not> distinct_T same_day_twice" by (simp add: distinct_T_def same_day_twice_ok)
  note pt = process_ohlc_data_timestamps[OF two_days_ok, of "''BTC''"]
  have ne: "?df \<noteq> []" using pt(2) two_days_ok(1) by auto
  have dd: "distinct (map timestamp ?df)" by (simp add: pt(4))
  have s1: "step_ok incremental (''BTC'', 200000000, serving two_days) st" for st
    by (rule step_ok_serving[OF dd])
  have s3: "step_ok full_refresh (''BTC'', 300000000, serving two_days) st" for st
    by (rule step_ok_serving[OF dd])
  have f1: "files (run incremental [(''BTC'', 200000000, serving two_days)] Map.empty)
      = Map.empty(''BTC'' \<mapsto> Table ?df)"
    using first_fetch[of "start Map.empty" "''BTC''" incremental two_days 200000000]
    by (simp add: run_start two_days_ok ne start_def)
  have s2: "step_ok incremental (''BTC'', 300000000, serving same_day_twice)
      (start (Map.empty(''BTC'' \<mapsto> Table ?df)))"
    by (rule step_ok_merge) (simp_all add: start_def incremental_def)
  have r12: "runs_ok [?r1, ?r2] Map.empty"
    using s1 s2 by (simp add: f1 start_def)
  have r123: "runs_ok [?r1, ?r2, ?r3] Map.empty"
    using s1 s2 s3 by (simp add: f1 start_def)
  note t = archives_stay_increasing[of Map.empty "[?r1, ?r2, ?r3]" "''BTC''"
      "start Map.empty" incremental "(''BTC'', 200000000, serving two_days)"]
  note t2 = archives_stay_increasing[of Map.empty "[?r1, ?r2]" "''BTC''"
      "start Map.empty" incremental "(''BTC'', 200000000, serving two_days)"]
  have last_run: "files (process_asset full_refresh (''BTC'', 300000000, serving two_days) (start fs))
      = fs(''BTC'' \<mapsto> Table ?df)" for fs
    using first_fetch[of "start fs" "''BTC''" full_refresh two_days 300000000]
    by (simp add: two_days_ok ne start_def full_refresh_def)
  have rows: "archive_rows (runs [?r1, ?r2, ?r3] Map.empty) ''BTC'' = ?df"
    by (simp add: run_start[of full_refresh] last_run archive_rows_def)
  have "map timestamp ?df = map timestamp (sort_values (map (\<lambda>(r, t). to_row ''BTC'' r t)
      (zip two_days [Some 86400000000000, Some 172800000000000])))"
    by (rule process_ohlc_data_map[OF two_days_ok]) simp
  also have "\<dots> = [Some 86400000000000, Some 172800000000000]"
    by (simp add: two_days_def to_row_def sort_values_def ts_key_def)
  finally have tsv: "map timestamp ?df = [Some 86400000000000, Some 172800000000000]" .
  have a3: "archives_ok (runs [?r1, ?r2, ?r3] Map.empty)"
    "strictly_increasing (archive_rows (runs [?r1, ?r2, ?r3] Map.empty) ''BTC'')"
    using t ok r123 by blast+
  have a2: "distinct (map timestamp (archive_rows (runs [?r1, ?r2] Map.empty) ''BTC''))"
    using t2 ok r12 by blast
  have st1: "archives_ok (files
        (process_asset incremental (''BTC'', 200000000, serving two_days) (start Map.empty)))"
    using t ok0 s1 by blast
  have tsr: "map timestamp (archive_rows (runs [?r1, ?r2, ?r3] Map.empty) ''BTC'')
      = [Some 86400000000000, Some 172800000000000]"
    by (simp only: rows tsv)
  show ?thesis
    using ok nd r123 a3 tsr r12 a2 ok0 s1 st1 by blast
qed

theorem duplicate_payload_counterexample:
  "\<not> distinct (map timestamp
       (archive_rows (runs [(incremental, [(''BTC'', 200000000, serving same_day_twice)])] Map.empty)
          ''BTC''))"
proof -
  let ?df = "process_ohlc_data same_day_twice ''BTC''"
  note t = process_ohlc_data_timestamps[OF same_day_twice_ok, of "''BTC''"]
  have ne: "?df \<noteq> []" using t(2) same_day_twice_ok(1) by auto
  have "files (process_asset incremental (''BTC'', 200000000, serving same_day_twice)
          (start Map.empty)) = (files (start Map.empty))(''BTC'' \<mapsto> Table ?df)"
    by (rule first_fetch) (simp_all add: same_day_twice_ok ne start_def)
  then have "archive_rows (runs [(incremental, [(''BTC'', 200000000, serving same_day_twice)])]
       Map.empty) ''BTC'' = ?df"
    by (simp add: run_start archive_rows_def)
  then show ?thesis using t(4) by simp
qed

end
